theory Spec2Isabelle
  imports Main "HOL-Library.Word" "HOL-Library.Sublist" "HOL-Library.Char_ord"
    "HOL-Library.List_Lexorder" "HOL-Library.AList"
begin

unbundle bit_operations_syntax

section \<open>ci-operator: cmd/ci-operator/main.go\<close>

text \<open>
  The development follows \<^verbatim>\<open>cmd/ci-operator/main.go\<close>: the workspace hash
  (\<^verbatim>\<open>inputHash\<close>, \<^verbatim>\<open>oneWayNameEncoding\<close>), input resolution
  (\<^verbatim>\<open>resolveInputs\<close>), the topological printer (\<^verbatim>\<open>topologicalSort\<close>,
  \<^verbatim>\<open>printExecutionOrder\<close>), namespace initialisation (\<^verbatim>\<open>initializeNamespace\<close>)
  and the driver (\<^verbatim>\<open>Run\<close>). Go strings are byte strings and are modelled as
  \<^typ>\<open>string\<close>; Go errors are values of the type \<open>error\<close> below.
\<close>

subsection \<open>crypto/sha256\<close>

text \<open>
  \<^verbatim>\<open>inputHash\<close> calls the standard library's SHA-256. The function below is FIPS 180-4
  as \<^verbatim>\<open>crypto/sha256\<close> computes it: 32-bit words with wrapping addition, big-endian
  packing, 64-byte blocks, and the padding written by \<^verbatim>\<open>checkSum\<close>. The running state
  \<^verbatim>\<open>[8]uint32\<close> is a list of eight words. The round constants \<^verbatim>\<open>_K\<close> are listed
  eight rounds to a row.
\<close>

type_synonym byte = "8 word"
type_synonym uint32 = "32 word"
type_synonym uint64 = "64 word"

definition K256 :: "uint32 list" where
  "K256 = concat [
    [0x428a2f98, 0x71374491, 0xb5c0fbcf, 0xe9b5dba5, 0x3956c25b, 0x59f111f1, 0x923f82a4, 0xab1c5ed5],
    [0xd807aa98, 0x12835b01, 0x243185be, 0x550c7dc3, 0x72be5d74, 0x80deb1fe, 0x9bdc06a7, 0xc19bf174],
    [0xe49b69c1, 0xefbe4786, 0x0fc19dc6, 0x240ca1cc, 0x2de92c6f, 0x4a7484aa, 0x5cb0a9dc, 0x76f988da],
    [0x983e5152, 0xa831c66d, 0xb00327c8, 0xbf597fc7, 0xc6e00bf3, 0xd5a79147, 0x06ca6351, 0x14292967],
    [0x27b70a85, 0x2e1b2138, 0x4d2c6dfc, 0x53380d13, 0x650a7354, 0x766a0abb, 0x81c2c92e, 0x92722c85],
    [0xa2bfe8a1, 0xa81a664b, 0xc24b8b70, 0xc76c51a3, 0xd192e819, 0xd6990624, 0xf40e3585, 0x106aa070],
    [0x19a4c116, 0x1e376c08, 0x2748774c, 0x34b0bcb5, 0x391c0cb3, 0x4ed8aa4a, 0x5b9cca4f, 0x682e6ff3],
    [0x748f82ee, 0x78a5636f, 0x84c87814, 0x8cc70208, 0x90befffa, 0xa4506ceb, 0xbef9a3f7, 0xc67178f2]]"

definition init256 :: "uint32 list" where
  "init256 = [0x6a09e667, 0xbb67ae85, 0x3c6ef372, 0xa54ff53a,
              0x510e527f, 0x9b05688c, 0x1f83d9ab, 0x5be0cd19]"

definition be_uint32 :: "byte list \<Rightarrow> uint32" where
  "be_uint32 bs = foldl (\<lambda>acc b. push_bit 8 acc OR ucast b) 0 (take 4 bs)"

definition put_uint32 :: "uint32 \<Rightarrow> byte list" where
  "put_uint32 w = [ucast (drop_bit 24 w), ucast (drop_bit 16 w), ucast (drop_bit 8 w), ucast w]"

definition put_uint64 :: "uint64 \<Rightarrow> byte list" where
  "put_uint64 w = map (\<lambda>i. ucast (drop_bit (8 * i) w)) [7, 6, 5, 4, 3, 2, 1, 0]"

fun words_of :: "nat \<Rightarrow> byte list \<Rightarrow> uint32 list" where
  "words_of 0 p = []"
| "words_of (Suc n) p = be_uint32 p # words_of n (drop 4 p)"

fun schedule :: "nat \<Rightarrow> uint32 list \<Rightarrow> uint32 list" where
  "schedule 0 w = w"
| "schedule (Suc n) w =
     (let i = length w;
          v1 = w ! (i - 2);
          t1 = word_rotr 17 v1 XOR word_rotr 19 v1 XOR drop_bit 10 v1;
          v2 = w ! (i - 15);
          t2 = word_rotr 7 v2 XOR word_rotr 18 v2 XOR drop_bit 3 v2
      in schedule n (w @ [t1 + w ! (i - 7) + t2 + w ! (i - 16)]))"

fun round256 :: "uint32 list \<Rightarrow> uint32 \<times> uint32 \<Rightarrow> uint32 list" where
  "round256 [a, b, c, d, e, f, g, h] (k, w) =
     (let t1 = h + (word_rotr 6 e XOR word_rotr 11 e XOR word_rotr 25 e)
                 + ((e AND f) XOR (NOT e AND g)) + k + w;
          t2 = (word_rotr 2 a XOR word_rotr 13 a XOR word_rotr 22 a)
                 + ((a AND b) XOR (a AND c) XOR (b AND c))
      in [t1 + t2, a, b, c, d + t1, e, f, g])"
| "round256 v _ = v"

definition block :: "uint32 list \<Rightarrow> byte list \<Rightarrow> uint32 list" where
  "block h p = map2 (+) h (foldl round256 h (zip K256 (schedule 48 (words_of 16 p))))"

function blocks :: "uint32 list \<Rightarrow> byte list \<Rightarrow> uint32 list" where
  "blocks h p = (if length p < 64 then h else blocks (block h (take 64 p)) (drop 64 p))"
  by pat_completeness auto
termination
  by (relation "measure (\<lambda>(h, p). length p)") auto

declare blocks.simps [simp del]

definition padding :: "nat \<Rightarrow> byte list" where
  "padding n =
     (0x80 # replicate ((if n mod 64 < 56 then 56 - n mod 64 else 64 + 56 - n mod 64) - 1) 0)
       @ put_uint64 (push_bit 3 (of_nat n))"

definition sha256 :: "byte list \<Rightarrow> byte list" where
  "sha256 msg = concat (map put_uint32 (blocks init256 (msg @ padding (length msg))))"

text \<open>
  The \<^verbatim>\<open>hash.Hash\<close> value returned by \<^verbatim>\<open>sha256.New()\<close>: its state is the message
  written so far; \<^verbatim>\<open>Write\<close> adds to it and \<^verbatim>\<open>Sum(b)\<close> appends the digest of the
  message to \<^verbatim>\<open>b\<close>.
\<close>

type_synonym digest = "byte list"

definition sha256_New :: digest where
  "sha256_New = []"

definition hash_Write :: "digest \<Rightarrow> byte list \<Rightarrow> digest" where
  "hash_Write d p = d @ p"

definition hash_Sum :: "digest \<Rightarrow> byte list \<Rightarrow> byte list" where
  "hash_Sum d b = b @ sha256 d"

definition bytes :: "string \<Rightarrow> byte list" where
  "bytes s = map of_char s"

subsection \<open>encoding/base32\<close>

text \<open>
  An \<^verbatim>\<open>Encoding\<close> is its 32-character alphabet and its padding character
  (\<open>None\<close> is \<^verbatim>\<open>NoPadding\<close>). \<open>quantum\<close> unpacks up to five source bytes into
  eight 5-bit values, as the \<^verbatim>\<open>switch\<close> with fall-through in \<^verbatim>\<open>Encode\<close> does:
  a byte that is absent contributes no bits.
\<close>

record Encoding =
  encodeMap :: string
  padChar :: "char option"

definition src_byte :: "byte list \<Rightarrow> nat \<Rightarrow> byte" where
  "src_byte src i = (if i < length src then src ! i else 0)"

definition quantum :: "byte list \<Rightarrow> byte list" where
  "quantum src =
     (let s0 = src_byte src 0; s1 = src_byte src 1; s2 = src_byte src 2;
          s3 = src_byte src 3; s4 = src_byte src 4
      in [drop_bit 3 s0,
          (push_bit 2 s0 AND 0x1F) OR (drop_bit 6 s1 AND 0x1F),
          drop_bit 1 s1 AND 0x1F,
          (push_bit 4 s1 AND 0x1F) OR (drop_bit 4 s2 AND 0x1F),
          (push_bit 1 s2 AND 0x1F) OR drop_bit 7 s3,
          drop_bit 2 s3 AND 0x1F,
          (push_bit 3 s3 AND 0x1F) OR drop_bit 5 s4,
          s4 AND 0x1F])"

function EncodeToString :: "Encoding \<Rightarrow> byte list \<Rightarrow> string" where
  "EncodeToString enc src =
     (if src = [] then []
      else
        let digits = map (\<lambda>v. encodeMap enc ! unat (v AND 31)) (quantum src) in
        if length src < 5 then
          (let n = (length src * 8 + 4) div 5 in
           case padChar enc of
             None \<Rightarrow> take n digits
           | Some p \<Rightarrow> take n digits @ replicate (8 - n) p)
        else digits @ EncodeToString enc (drop 5 src))"
  by pat_completeness auto
termination
  by (relation "measure (\<lambda>(enc, src). length src)") auto

declare EncodeToString.simps [simp del]

subsection \<open>The workspace hash\<close>

definition oneWayNameEncoding :: Encoding where
  "oneWayNameEncoding =
     \<lparr>encodeMap = ''bcdfghijklmnpqrstvwxyz0123456789'', padChar = None\<rparr>"

type_synonym InputDefinition = "string list"

definition inputHash :: "InputDefinition \<Rightarrow> string" where
  "inputHash inputs =
     EncodeToString oneWayNameEncoding
       (take 5 (hash_Sum (foldl (\<lambda>hash s. hash_Write hash (bytes s)) sha256_New inputs) []))"

subsection \<open>Errors and results\<close>

text \<open>
  A Go \<^verbatim>\<open>error\<close> is either a plain message (\<^verbatim>\<open>errors.New\<close>, \<^verbatim>\<open>fmt.Errorf\<close>) or an
  API status error, whose reason \<^verbatim>\<open>kerrors.IsAlreadyExists\<close>, \<^verbatim>\<open>IsNotFound\<close> and
  \<^verbatim>\<open>IsForbidden\<close> inspect. A call that returns \<^verbatim>\<open>error\<close> is modelled by
  \<open>error option\<close> (\<open>None\<close> is \<^verbatim>\<open>nil\<close>) or by a \<open>result\<close>, which also has a branch for
  a panic.
\<close>

datatype StatusReason = AlreadyExists | NotFound | Forbidden | Unknown

datatype error = errorString string | StatusError StatusReason string

fun Error :: "error \<Rightarrow> string" where
  "Error (errorString m) = m"
| "Error (StatusError r m) = m"

fun IsAlreadyExists :: "error \<Rightarrow> bool" where
  "IsAlreadyExists (StatusError AlreadyExists m) = True"
| "IsAlreadyExists _ = False"

fun IsNotFound :: "error \<Rightarrow> bool" where
  "IsNotFound (StatusError NotFound m) = True"
| "IsNotFound _ = False"

fun IsForbidden :: "error \<Rightarrow> bool" where
  "IsForbidden (StatusError Forbidden m) = True"
| "IsForbidden _ = False"

datatype 'a result = Ok 'a | Failed error | Panic string

subsection \<open>Steps, links and step nodes\<close>

text \<open>
  Modelled from the spec: the package \<^verbatim>\<open>pkg/api\<close> (\<^verbatim>\<open>StepLink\<close>, \<^verbatim>\<open>Step\<close>,
  \<^verbatim>\<open>StepNode\<close>, \<^verbatim>\<open>HasAllLinks\<close>) is not part of the sources at hand. A link is one of
  the enumerated variants, compared by value. A step is the capability set the engine
  uses: its name, the links it requires and creates, and its inputs (which may fail);
  \<open>ref\<close> is the identity of the step object, since \<^verbatim>\<open>topologicalSort\<close> keys a map by
  the step itself, and \<open>goType\<close> the name of its Go type. A step node is a step with the nodes that depend on it.
\<close>

datatype StepLink =
    RootSourceLink
  | BaseImageLink string
  | ReleaseLink string
  | PipelineImageLink string
  | ImagesReadyLink
  | RPMRepoLink
  | ExternalImageLink string

record Step =
  ref :: nat
  goType :: string
  Name :: string
  Requires :: "StepLink list"
  Creates :: "StepLink list"
  Inputs :: "bool \<Rightarrow> error + InputDefinition"

datatype StepNode = StepNode (Step: Step) (Children: "StepNode list")

text \<open>
  Modelled from the spec: \<^verbatim>\<open>HasAllLinks(required, satisfied)\<close> is true iff every element
  of \<open>required\<close> is structurally equal to some element of \<open>satisfied\<close>.
\<close>

definition HasAllLinks :: "StepLink list \<Rightarrow> StepLink list \<Rightarrow> bool" where
  "HasAllLinks needles haystack = list_all (\<lambda>needle. needle \<in> set haystack) needles"

subsection \<open>Options and the job spec\<close>

record Pull =
  Number :: int
  Author :: string
  SHA :: string

record Refs =
  Org :: string
  Repo :: string
  BaseRef :: string
  BaseSHA :: string
  Pulls :: "Pull list"

record OwnerReference =
  APIVersion :: string
  Kind :: string
  owner_Name :: string
  UID :: string
  Controller :: "bool option"

text \<open>
  Modelled from the spec: \<^verbatim>\<open>steps.JobSpec\<close> is not part of the sources at hand; it has the
  job name, the source references, and the namespace and owner that
  \<^verbatim>\<open>SetNamespace\<close> and \<^verbatim>\<open>SetOwner\<close> store.
\<close>

record JobSpec =
  Job :: string
  Refs :: Refs
  js_namespace :: string
  js_owner :: "OwnerReference option"

definition SetNamespace :: "JobSpec \<Rightarrow> string \<Rightarrow> JobSpec" where
  "SetNamespace job ns = job\<lparr>js_namespace := ns\<rparr>"

definition SetOwner :: "JobSpec \<Rightarrow> OwnerReference \<Rightarrow> JobSpec" where
  "SetOwner job ow = job\<lparr>js_owner := Some ow\<rparr>"

record Secret =
  secret_Name :: string
  Data :: "(string \<times> byte list) list option"

text \<open>
  The fields of \<^verbatim>\<open>options\<close> that the functions below read or write. The configuration
  is a value of an arbitrary type \<open>'cfg\<close>; \<^verbatim>\<open>json.Marshal\<close> on it is a parameter
  \<open>json_Marshal\<close> of the functions that serialise it. The field \<^verbatim>\<open>inputHash\<close> is
  \<open>inputHash_opt\<close> here, the function \<^verbatim>\<open>inputHash\<close> keeping the name.
\<close>

record 'cfg options =
  targets :: "string list"
  dry :: bool
  artifactDir :: string
  namespace :: string
  idleCleanupDuration :: int
  inputHash_opt :: string
  secrets :: "Secret list"
  configSpec :: 'cfg
  jobSpec :: JobSpec

subsection \<open>strings.Replace\<close>

text \<open>
  \<^verbatim>\<open>strings.Replace(s, old, new, -1)\<close> for a non-empty \<open>old\<close>: every occurrence found
  scanning from the left is replaced, and the scan resumes after the occurrence. (With an
  empty \<open>old\<close> Go inserts \<open>new\<close> around every rune; the program never does that, and the
  function below returns \<open>s\<close> there.)
\<close>

function strings_Replace :: "string \<Rightarrow> string \<Rightarrow> string \<Rightarrow> string" where
  "strings_Replace [] old new = []"
| "strings_Replace (c # cs) old new =
     (if old \<noteq> [] \<and> prefix old (c # cs)
      then new @ strings_Replace (drop (length old) (c # cs)) old new
      else c # strings_Replace cs old new)"
  by pat_completeness auto
termination
  by (relation "measure (\<lambda>(s, old, new). length s)") (auto simp: neq_Nil_conv)

subsection \<open>resolveInputs\<close>

text \<open>
  The loop of \<^verbatim>\<open>resolveInputs\<close> over the steps: the first failing \<^verbatim>\<open>Inputs\<close> call
  returns its error.
\<close>

fun collectInputs :: "bool \<Rightarrow> Step list \<Rightarrow> InputDefinition \<Rightarrow> error + InputDefinition" where
  "collectInputs d [] inputs = Inr inputs"
| "collectInputs d (step # steps) inputs =
     (case Inputs step d of
        Inl err \<Rightarrow> Inl err
      | Inr definition \<Rightarrow> collectInputs d steps (inputs @ definition))"

text \<open>
  The value of the local variable \<^verbatim>\<open>inputs\<close> when \<^verbatim>\<open>inputHash(inputs)\<close> is called:
  the steps' inputs, then the serialised configuration. A failing \<^verbatim>\<open>json.Marshal\<close>
  panics.
\<close>

definition resolvedInputs ::
  "('cfg \<Rightarrow> error + string) \<Rightarrow> 'cfg options \<Rightarrow> Step list \<Rightarrow> InputDefinition result" where
  "resolvedInputs json_Marshal opt steps =
     (case collectInputs (dry opt) steps [] of
        Inl err \<Rightarrow> Failed err
      | Inr inputs \<Rightarrow>
          (case json_Marshal (configSpec opt) of
             Inl err \<Rightarrow> Panic (Error err)
           | Inr spec \<Rightarrow> Ok (inputs @ [spec])))"

definition resolveInputs ::
  "('cfg \<Rightarrow> error + string) \<Rightarrow> 'cfg options \<Rightarrow> Step list \<Rightarrow> 'cfg options result" where
  "resolveInputs json_Marshal opt steps =
     (case resolvedInputs json_Marshal opt steps of
        Failed err \<Rightarrow> Failed err
      | Panic p \<Rightarrow> Panic p
      | Ok inputs \<Rightarrow>
          (let o1 = opt\<lparr>inputHash_opt := inputHash inputs\<rparr>;
               o2 = (if length (namespace o1) = 0 then o1\<lparr>namespace := ''ci-op-{id}''\<rparr> else o1);
               o3 = o2\<lparr>namespace := strings_Replace (namespace o2) ''{id}'' (inputHash_opt o2)\<rparr>
           in Ok (o3\<lparr>jobSpec := SetNamespace (jobSpec o3) (namespace o3)\<rparr>)))"

subsection \<open>topologicalSort and printExecutionOrder\<close>

text \<open>
  The variables of \<^verbatim>\<open>topologicalSort\<close>: \<open>sortedNodes\<close>, \<open>satisfied\<close> and \<open>seen\<close> live
  across passes, \<open>waiting\<close> and \<open>changed\<close> are reset at the start of each pass.
  \<open>visit\<close> is the body of the inner loop for one node: its unseen children are queued
  first; then the node is skipped if seen, queued again if a required link is missing,
  and emitted otherwise.
\<close>

record sortState =
  sortedNodes :: "StepNode list"
  satisfied :: "StepLink list"
  seen :: "Step set"
  waiting :: "StepNode list"
  changed :: bool

definition visit :: "sortState \<Rightarrow> StepNode \<Rightarrow> sortState" where
  "visit st node =
     (let st1 = st\<lparr>waiting := waiting st @ filter (\<lambda>child. Step child \<notin> seen st) (Children node)\<rparr>
      in if Step node \<in> seen st1 then st1
         else if \<not> HasAllLinks (Requires (Step node)) (satisfied st1)
         then st1\<lparr>waiting := waiting st1 @ [node]\<rparr>
         else st1\<lparr>satisfied := satisfied st1 @ Creates (Step node),
                  sortedNodes := sortedNodes st1 @ [node],
                  seen := insert (Step node) (seen st1),
                  changed := True\<rparr>)"

text \<open>
  The nodes of a graph: a node and, recursively, its children. \<open>reachable nodes\<close> is
  the node set of the graph with the roots \<open>nodes\<close>.
\<close>

fun nodes_of :: "StepNode \<Rightarrow> StepNode set" where
  "nodes_of (StepNode s cs) = insert (StepNode s cs) (\<Union>c\<in>set cs. nodes_of c)"

definition reachable :: "StepNode list \<Rightarrow> StepNode set" where
  "reachable nodes = (\<Union>n\<in>set nodes. nodes_of n)"

definition pass :: "sortState \<Rightarrow> StepNode list \<Rightarrow> sortState" where
  "pass st nodes = foldl visit (st\<lparr>waiting := [], changed := False\<rparr>) nodes"

lemma finite_nodes_of: "finite (nodes_of n)"
  by (induction n) auto

lemma self_in_nodes_of: "n \<in> nodes_of n"
  by (cases n) simp

lemma children_in_nodes_of: "c \<in> set (Children n) \<Longrightarrow> nodes_of c \<subseteq> nodes_of n"
  by (cases n) auto

lemma finite_reachable: "finite (reachable nodes)"
  by (simp add: reachable_def finite_nodes_of)

lemma seen_visit: "seen st \<subseteq> seen (visit st n)"
  by (auto simp: visit_def Let_def)

lemma seen_foldl_visit: "seen st \<subseteq> seen (foldl visit st ns)"
proof (induction ns arbitrary: st)
  case Nil
  then show ?case by simp
next
  case (Cons n ns)
  have "seen st \<subseteq> seen (visit st n)" by (rule seen_visit)
  also have "\<dots> \<subseteq> seen (foldl visit (visit st n) ns)" by (rule Cons.IH)
  finally show ?case by simp
qed

lemma waiting_visit:
  "set (waiting (visit st n)) \<subseteq> set (waiting st) \<union> insert n (set (Children n))"
  by (auto simp: visit_def Let_def)

lemma waiting_foldl_visit:
  "set (waiting (foldl visit st ns)) \<subseteq> set (waiting st) \<union> set ns \<union> (\<Union>n\<in>set ns. set (Children n))"
proof (induction ns arbitrary: st)
  case Nil
  then show ?case by simp
next
  case (Cons n ns)
  from Cons.IH [of "visit st n"] waiting_visit [of st n] show ?case by auto
qed

lemma changed_visit:
  "changed (visit st n) \<Longrightarrow> changed st \<or> (Step n \<notin> seen st \<and> Step n \<in> seen (visit st n))"
  by (auto simp: visit_def Let_def split: if_splits)

lemma changed_foldl_visit:
  "changed (foldl visit st ns) \<Longrightarrow>
     changed st \<or> (\<exists>n\<in>set ns. Step n \<notin> seen st \<and> Step n \<in> seen (foldl visit st ns))"
proof (induction ns arbitrary: st)
  case Nil
  then show ?case by simp
next
  case (Cons n ns)
  from Cons.prems have "changed (foldl visit (visit st n) ns)" by simp
  from Cons.IH [OF this] consider
      (a) "changed (visit st n)"
    | (b) m where "m \<in> set ns" "Step m \<notin> seen (visit st n)" "Step m \<in> seen (foldl visit (visit st n) ns)"
    by blast
  then show ?case
  proof cases
    case a
    from changed_visit [OF a] seen_foldl_visit [of "visit st n" ns] show ?thesis by auto
  next
    case b
    with seen_visit [of st n] show ?thesis by auto
  qed
qed

lemma reachable_waiting_pass:
  "reachable (waiting (pass st ns)) \<subseteq> reachable ns"
proof
  fix x assume "x \<in> reachable (waiting (pass st ns))"
  then obtain w where w: "w \<in> set (waiting (pass st ns))" and x: "x \<in> nodes_of w"
    by (auto simp: reachable_def)
  from w waiting_foldl_visit [of "st\<lparr>waiting := [], changed := False\<rparr>" ns]
  have "w \<in> set ns \<or> (\<exists>n\<in>set ns. w \<in> set (Children n))"
    by (auto simp: pass_def)
  then show "x \<in> reachable ns"
    using x children_in_nodes_of by (fastforce simp: reachable_def)
qed

lemma pass_changed_decreases:
  assumes "changed (pass st ns)"
  shows "card (Step ` reachable (waiting (pass st ns)) - seen (pass st ns))
           < card (Step ` reachable ns - seen st)"
proof -
  let ?st' = "pass st ns"
  from assms changed_foldl_visit [of "st\<lparr>waiting := [], changed := False\<rparr>" ns]
  obtain n where n: "n \<in> set ns" "Step n \<notin> seen st" "Step n \<in> seen ?st'"
    by (auto simp: pass_def)
  have sub: "seen st \<subseteq> seen ?st'"
    using seen_foldl_visit [of "st\<lparr>waiting := [], changed := False\<rparr>" ns] by (simp add: pass_def)
  have "Step n \<in> Step ` reachable ns"
    using n(1) self_in_nodes_of by (auto simp: reachable_def)
  with n sub reachable_waiting_pass [of st ns]
  have "Step ` reachable (waiting ?st') - seen ?st' \<subset> Step ` reachable ns - seen st"
    by blast
  then show ?thesis
    by (intro psubset_card_mono) (simp_all add: finite_reachable)
qed

text \<open>
  The outer loop. It returns the sorted nodes once no node is left, and the error when a
  pass emitted nothing although nodes are waiting. (The diagnostic lines that the failing
  branch logs print Go type names and are not modelled.) Each pass that continues either
  marks a new step as seen or leaves an empty list, so the loop terminates.
\<close>

function sortLoop :: "StepNode list \<Rightarrow> sortState \<Rightarrow> error + StepNode list" where
  "sortLoop nodes st =
     (if nodes = [] then Inr (sortedNodes st)
      else
        let st' = pass st nodes in
        if \<not> changed st' \<and> waiting st' \<noteq> []
        then Inl (errorString ''steps are missing dependencies'')
        else sortLoop (waiting st') st')"
  by pat_completeness auto
termination
proof (relation "measures [\<lambda>(nodes, st). card (Step ` reachable nodes - seen st),
                           \<lambda>(nodes, st). length nodes]", goal_cases)
  case 1
  then show ?case by simp
next
  case (2 nodes st st')
  show ?case
  proof (cases "changed st'")
    case True
    with 2 pass_changed_decreases [of st nodes] show ?thesis by simp
  next
    case False
    with 2 have "waiting st' = []" by simp
    with 2 show ?thesis by (auto simp: reachable_def)
  qed
qed

declare sortLoop.simps [simp del]

definition topologicalSort :: "StepNode list \<Rightarrow> error + StepNode list" where
  "topologicalSort nodes =
     sortLoop nodes \<lparr>sortedNodes = [], satisfied = [], seen = {}, waiting = [], changed = False\<rparr>"

text \<open>
  \<^verbatim>\<open>nodeNames\<close> prints a step without a name as its Go type in angle brackets
  (\<open>goType\<close>); \<^verbatim>\<open>printExecutionOrder\<close> returns the lines it logs and its error.
\<close>

fun strings_Join :: "string list \<Rightarrow> string \<Rightarrow> string" where
  "strings_Join [] sep = []"
| "strings_Join [a] sep = a"
| "strings_Join (a # b # rest) sep = a @ sep @ strings_Join (b # rest) sep"

definition nodeNames :: "StepNode list \<Rightarrow> string list" where
  "nodeNames nodes =
     map (\<lambda>node. let name = Name (Step node)
                  in if length name = 0 then ''<'' @ goType (Step node) @ ''>'' else name) nodes"

definition printExecutionOrder :: "StepNode list \<Rightarrow> string list \<times> error option" where
  "printExecutionOrder nodes =
     (case topologicalSort nodes of
        Inl err \<Rightarrow> ([], Some err)
      | Inr ordered \<Rightarrow> ([''Running '' @ strings_Join (nodeNames ordered) '', ''], None))"

subsection \<open>The cluster, the file system and the other collaborators\<close>

text \<open>
  Everything outside \<^verbatim>\<open>main.go\<close> that the functions below call is a field of the
  environment \<open>env\<close>: the cluster clients, \<^verbatim>\<open>steps.FromConfig\<close>,
  \<^verbatim>\<open>api.BuildPartialGraph\<close>, \<^verbatim>\<open>steps.Run\<close>, a step's \<^verbatim>\<open>Run\<close>, the logger, the
  marshallers and the file system. The state of the world they act on (cluster, files,
  log output, clock) is a value of an arbitrary type \<open>'w\<close>, passed to each call and
  returned by it. A client constructor (\<^verbatim>\<open>NewForConfig\<close>) either fails or gives a
  client. \<^verbatim>\<open>ImageStreams\<close> calls return an object and an error independently, as the
  code tests the object for \<^verbatim>\<open>nil\<close>. The cleanup pod is a fixed template, so its creation
  takes only the namespace and the idle duration.
\<close>

datatype NamespacePhase = NamespaceActive | NamespaceTerminating

record ProjectRequest =
  pr_Name :: string
  DisplayName :: string
  Description :: string

record Project =
  Phase :: NamespacePhase

record ImageStream =
  is_Namespace :: string
  is_Name :: string
  is_UID :: string
  LookupPolicy_Local :: bool

record TestSuite =
  suite_Name :: string

record TestSuites =
  Suites :: "TestSuite list"

record ('cfg, 'w) env =
  json_Marshal :: "'cfg \<Rightarrow> error + string"
  xml_MarshalIndent :: "TestSuites \<Rightarrow> error + string"
  filepath_Join :: "string \<Rightarrow> string \<Rightarrow> string"
  Duration_String :: "int \<Rightarrow> string"
  PipelineImageStream :: string
  steps_FromConfig :: "'cfg options \<Rightarrow> error + (Step list \<times> Step list)"
  BuildPartialGraph :: "Step list \<Rightarrow> string list \<Rightarrow> error + StepNode list"
  steps_Run :: "StepNode list \<Rightarrow> bool \<Rightarrow> 'w \<Rightarrow> (TestSuites option \<times> error option) \<times> 'w"
  step_Run :: "Step \<Rightarrow> bool \<Rightarrow> 'w \<Rightarrow> error option \<times> 'w"
  log_Printf :: "string \<Rightarrow> 'w \<Rightarrow> 'w"
  time_Sleep :: "nat \<Rightarrow> 'w \<Rightarrow> 'w"
  ioutil_WriteFile :: "string \<Rightarrow> string \<Rightarrow> 'w \<Rightarrow> error option \<times> 'w"
  project_NewForConfig :: "error option"
  image_NewForConfig :: "error option"
  core_NewForConfig :: "error option"
  rbac_NewForConfig :: "error option"
  ProjectRequests_Create :: "ProjectRequest \<Rightarrow> 'w \<Rightarrow> (error + Project) \<times> 'w"
  Projects_Get :: "string \<Rightarrow> 'w \<Rightarrow> (error + Project) \<times> 'w"
  ServiceAccounts_Create :: "string \<Rightarrow> string \<Rightarrow> 'w \<Rightarrow> error option \<times> 'w"
  RoleBindings_Create :: "string \<Rightarrow> string \<Rightarrow> 'w \<Rightarrow> error option \<times> 'w"
  Pods_Create_cleanup :: "string \<Rightarrow> int \<Rightarrow> 'w \<Rightarrow> error option \<times> 'w"
  ImageStreams_Create :: "ImageStream \<Rightarrow> 'w \<Rightarrow> (ImageStream option \<times> error option) \<times> 'w"
  ImageStreams_Get :: "string \<Rightarrow> string \<Rightarrow> 'w \<Rightarrow> (ImageStream option \<times> error option) \<times> 'w"
  Secrets_Create :: "string \<Rightarrow> Secret \<Rightarrow> 'w \<Rightarrow> error option \<times> 'w"
  Secrets_Get :: "string \<Rightarrow> string \<Rightarrow> 'w \<Rightarrow> (error + Secret) \<times> 'w"
  Secrets_Update :: "string \<Rightarrow> Secret \<Rightarrow> 'w \<Rightarrow> error option \<times> 'w"

definition Errorf :: "string \<Rightarrow> error \<Rightarrow> error" where
  "Errorf msg err = errorString (msg @ Error err)"

text \<open>\<^verbatim>\<open>fmt.Sprintf("%d", i)\<close>, and \<^verbatim>\<open>jobDescription\<close>, which uses it.\<close>

function nat_digits :: "nat \<Rightarrow> string" where
  "nat_digits n =
     (if n < 10 then [char_of (48 + n)] else nat_digits (n div 10) @ [char_of (48 + n mod 10)])"
  by pat_completeness auto
termination
  by (relation "measure id") auto

declare nat_digits.simps [simp del]

definition Sprintf_d :: "int \<Rightarrow> string" where
  "Sprintf_d i = (if i < 0 then ''-'' @ nat_digits (nat (- i)) else nat_digits (nat i))"

definition jobDescription :: "JobSpec \<Rightarrow> 'cfg \<Rightarrow> string" where
  "jobDescription job config =
     (let links = map (\<lambda>pull. ''https://github.com/'' @ Org (Refs job) @ ''/'' @ Repo (Refs job)
                                @ ''/pull/'' @ Sprintf_d (Number pull) @ '' - '' @ Author pull)
                      (Pulls (Refs job))
      in if length links > 0
         then Job job @ '' on https://github.com/'' @ Org (Refs job) @ ''/'' @ Repo (Refs job)
                @ [CHR 0x0A, CHR 0x0A] @ strings_Join links [CHR 0x0A]
         else Job job @ '' on https://github.com/'' @ Org (Refs job) @ ''/'' @ Repo (Refs job)
                @ '' ref='' @ BaseRef (Refs job) @ '' commit='' @ BaseSHA (Refs job))"

subsection \<open>initializeNamespace\<close>

text \<open>
  The \<^verbatim>\<open>for\<close> loop that creates the project or waits for it. It may run forever (a
  namespace that stays terminating, a project that is reported as existing but is never
  found), so it is a partial function: \<open>None\<close> is a run that does not return.
\<close>

partial_function (option) namespaceLoop ::
  "('cfg, 'w) env \<Rightarrow> 'cfg options \<Rightarrow> nat \<Rightarrow> 'w \<Rightarrow> (error option \<times> 'w) option" where
  "namespaceLoop env opt retries w =
     (case ProjectRequests_Create env
             \<lparr>pr_Name = namespace opt,
              DisplayName = namespace opt @ '' - '' @ Job (jobSpec opt),
              Description = jobDescription (jobSpec opt) (configSpec opt)\<rparr> w of
        (Inl err, w1) \<Rightarrow>
          if \<not> IsAlreadyExists err
          then Some (Some (Errorf ''could not set up namespace for test: '' err), w1)
          else
            (case Projects_Get env (namespace opt) w1 of
               (Inl err2, w2) \<Rightarrow>
                 if IsNotFound err2 then namespaceLoop env opt retries w2
                 else if IsForbidden err2 \<and> retries > 0
                 then namespaceLoop env opt (retries - 1) (time_Sleep env 1 w2)
                 else Some (Some (Errorf ''cannot retrieve test namespace: '' err2), w2)
             | (Inr project, w2) \<Rightarrow>
                 if Phase project = NamespaceTerminating
                 then namespaceLoop env opt retries
                        (time_Sleep env 3
                          (log_Printf env
                            ''Waiting for namespace to finish terminating before creating another'' w2))
                 else Some (None, w2))
      | (Inr project, w1) \<Rightarrow>
          if Phase project = NamespaceTerminating
          then namespaceLoop env opt retries
                 (time_Sleep env 3
                   (log_Printf env
                     ''Waiting for namespace to finish terminating before creating another'' w1))
          else Some (None, w1))"

declare namespaceLoop.simps [code]

definition createNamespaceCleanupPod ::
  "('cfg, 'w) env \<Rightarrow> 'cfg options \<Rightarrow> 'w \<Rightarrow> error option \<times> 'w" where
  "createNamespaceCleanupPod env opt w =
     (let w0 = log_Printf env (''Namespace will be deleted after ''
                 @ Duration_String env (idleCleanupDuration opt) @ '' of idle time'') w
      in case core_NewForConfig env of
           Some err \<Rightarrow> (Some (Errorf ''could not get image client for cluster config: '' err), w0)
         | None \<Rightarrow>
        (case rbac_NewForConfig env of
           Some err \<Rightarrow> (Some (Errorf ''could not get image client for cluster config: '' err), w0)
         | None \<Rightarrow>
        (case ServiceAccounts_Create env (namespace opt) ''cleanup'' w0 of (e1, w1) \<Rightarrow>
         if e1 \<noteq> None \<and> \<not> IsAlreadyExists (the e1)
         then (Some (Errorf ''could not create service account for cleanup: '' (the e1)), w1)
         else
        (case RoleBindings_Create env (namespace opt) ''cleanup'' w1 of (e2, w2) \<Rightarrow>
         if e2 \<noteq> None \<and> \<not> IsAlreadyExists (the e2)
         then (Some (Errorf ''could not create role binding for cleanup: '' (the e2)), w2)
         else
        (case Pods_Create_cleanup env (namespace opt) (idleCleanupDuration opt) w2 of (e3, w3) \<Rightarrow>
         if e3 \<noteq> None \<and> \<not> IsAlreadyExists (the e3)
         then (Some (Errorf ''could not create pod for cleanup: '' (the e3)), w3)
         else (None, w3))))))"

text \<open>
  The loop over \<^verbatim>\<open>o.secrets\<close>. Copying the data of a secret into an existing secret
  whose data map is \<^verbatim>\<open>nil\<close> panics in Go, unless there is nothing to copy.
\<close>

definition mergeData :: "Secret \<Rightarrow> Secret \<Rightarrow> Secret result" where
  "mergeData secret existing =
     (case Data secret of
        None \<Rightarrow> Ok existing
      | Some [] \<Rightarrow> Ok existing
      | Some (kv # kvs) \<Rightarrow>
          (case Data existing of
             None \<Rightarrow> Panic ''assignment to entry in nil map''
           | Some d \<Rightarrow>
               Ok (existing\<lparr>Data := Some (foldl (\<lambda>d (k, v). AList.update k v d) d (kv # kvs))\<rparr>)))"

fun createSecrets ::
  "('cfg, 'w) env \<Rightarrow> string \<Rightarrow> Secret list \<Rightarrow> 'w \<Rightarrow> unit result \<times> 'w" where
  "createSecrets env ns [] w = (Ok (), w)"
| "createSecrets env ns (secret # rest) w =
     (case Secrets_Create env ns secret w of (err, w1) \<Rightarrow>
      if err \<noteq> None \<and> IsAlreadyExists (the err)
      then
        (case Secrets_Get env ns (secret_Name secret) w1 of
           (Inl err2, w2) \<Rightarrow> (Failed err2, w2)
         | (Inr existing, w2) \<Rightarrow>
             (case mergeData secret existing of
                Panic p \<Rightarrow> (Panic p, w2)
              | Failed err3 \<Rightarrow> (Failed err3, w2)
              | Ok merged \<Rightarrow>
                  (case Secrets_Update env ns merged w2 of
                     (Some err3, w3) \<Rightarrow> (Failed err3, w3)
                   | (None, w3) \<Rightarrow>
                       createSecrets env ns rest
                         (log_Printf env (''Updated secret '' @ secret_Name secret) w3))))
      else if err \<noteq> None then (Failed (the err), w1)
      else createSecrets env ns rest (log_Printf env (''Created secret '' @ secret_Name secret) w1))"

text \<open>
  \<^verbatim>\<open>initializeNamespace\<close> returns the result, the options (it sets the owner of the job
  spec) and the world.
\<close>

definition initializeNamespace ::
  "('cfg, 'w) env \<Rightarrow> 'cfg options \<Rightarrow> 'w \<Rightarrow> (unit result \<times> 'cfg options \<times> 'w) option" where
  "initializeNamespace env opt w =
     (if dry opt then Some (Ok (), opt, w)
      else
        case project_NewForConfig env of
          Some err \<Rightarrow>
            Some (Failed (Errorf ''could not get project client for cluster config: '' err), opt, w)
        | None \<Rightarrow>
        (case namespaceLoop env opt 5 (log_Printf env (''Creating namespace '' @ namespace opt) w) of
          None \<Rightarrow> None
        | Some (Some err, w1) \<Rightarrow> Some (Failed err, opt, w1)
        | Some (None, w1) \<Rightarrow>
        (case (if idleCleanupDuration opt > 0 then createNamespaceCleanupPod env opt w1
               else (None, w1)) of
          (Some err, w2) \<Rightarrow> Some (Failed err, opt, w2)
        | (None, w2) \<Rightarrow>
        (case image_NewForConfig env of
          Some err \<Rightarrow>
            Some (Failed (Errorf ''could not get image client for cluster config: '' err), opt, w2)
        | None \<Rightarrow>
        (case ImageStreams_Create env
                \<lparr>is_Namespace = js_namespace (jobSpec opt), is_Name = PipelineImageStream env,
                 is_UID = [], LookupPolicy_Local = True\<rparr> w2 of
          ((created, err), w3) \<Rightarrow>
        if err \<noteq> None \<and> \<not> IsAlreadyExists (the err)
        then Some (Failed (Errorf ''could not set up pipeline imagestream for test: '' (the err)),
                   opt, w3)
        else
        (case (if err \<noteq> None
               then (case ImageStreams_Get env (js_namespace (jobSpec opt)) (PipelineImageStream env) w3
                     of ((found, err2), w4) \<Rightarrow> (found, w4))
               else (created, w3)) of
          (is, w4) \<Rightarrow>
        (let opt1 = (case is of
                       None \<Rightarrow> opt
                     | Some stream \<Rightarrow>
                         opt\<lparr>jobSpec := SetOwner (jobSpec opt)
                               \<lparr>APIVersion = ''image.openshift.io/v1'', Kind = ''ImageStream'',
                                owner_Name = PipelineImageStream env, UID = is_UID stream,
                                Controller = Some True\<rparr>\<rparr>)
         in case core_NewForConfig env of
              Some err \<Rightarrow>
                Some (Failed (Errorf ''could not get core client for cluster config: '' err), opt1, w4)
            | None \<Rightarrow>
                (case createSecrets env (namespace opt1) (secrets opt1) w4 of
                   (r, w5) \<Rightarrow> Some (r, opt1, w5)))))))))"

subsection \<open>writeJUnit and Run\<close>

text \<open>
  \<^verbatim>\<open>writeJUnit\<close> indexes \<^verbatim>\<open>suites.Suites[0]\<close>, which panics on an empty list.
  \<open>executeGraph\<close> is the part of \<^verbatim>\<open>Run\<close> from \<^verbatim>\<open>steps.Run\<close> to the end: the graph is
  executed, the JUnit document written (an error is only logged), and the post steps run
  in order until the first error. \<open>Run\<close> is the whole method; the function passed to
  \<^verbatim>\<open>interrupt.New(handler).Run\<close> is run directly, and the deferred line that logs the
  elapsed time is left out.
\<close>

definition writeJUnit ::
  "('cfg, 'w) env \<Rightarrow> 'cfg options \<Rightarrow> TestSuites option \<Rightarrow> string \<Rightarrow> 'w \<Rightarrow> unit result \<times> 'w" where
  "writeJUnit env opt suites name w =
     (if length (artifactDir opt) = 0 \<or> suites = None then (Ok (), w)
      else
        case Suites (the suites) of
          [] \<Rightarrow> (Panic ''index out of range'', w)
        | first # rest \<Rightarrow>
            (case xml_MarshalIndent env ((the suites)\<lparr>Suites := first\<lparr>suite_Name := name\<rparr> # rest\<rparr>) of
               Inl err \<Rightarrow> (Failed err, w)
             | Inr out \<Rightarrow>
                 (case ioutil_WriteFile env
                         (filepath_Join env (artifactDir opt) (''junit_'' @ name @ ''.xml'')) out w of
                    (Some err, w1) \<Rightarrow> (Failed err, w1)
                  | (None, w1) \<Rightarrow> (Ok (), w1))))"

fun runPostSteps ::
  "('cfg, 'w) env \<Rightarrow> bool \<Rightarrow> Step list \<Rightarrow> 'w \<Rightarrow> unit result \<times> 'w" where
  "runPostSteps env d [] w = (Ok (), w)"
| "runPostSteps env d (step # rest) w =
     (case step_Run env step d w of
        (Some err, w1) \<Rightarrow> (Failed err, w1)
      | (None, w1) \<Rightarrow> runPostSteps env d rest w1)"

definition executeGraph ::
  "('cfg, 'w) env \<Rightarrow> 'cfg options \<Rightarrow> StepNode list \<Rightarrow> Step list \<Rightarrow> 'w \<Rightarrow> unit result \<times> 'w" where
  "executeGraph env opt nodes postSteps w =
     (case steps_Run env nodes (dry opt) w of ((suites, err), w1) \<Rightarrow>
       (case writeJUnit env opt suites ''operator'' w1 of
          (Panic p, w2) \<Rightarrow> (Panic p, w2)
        | (junit, w2) \<Rightarrow>
            (let w3 = (case junit of
                         Failed jerr \<Rightarrow>
                           log_Printf env (''warning: Unable to write JUnit result: '' @ Error jerr) w2
                       | _ \<Rightarrow> w2)
             in case err of
                  Some e \<Rightarrow> (Failed e, w3)
                | None \<Rightarrow> runPostSteps env (dry opt) postSteps w3)))"

definition Run ::
  "('cfg, 'w) env \<Rightarrow> 'cfg options \<Rightarrow> 'w \<Rightarrow> (unit result \<times> 'cfg options \<times> 'w) option" where
  "Run env opt w =
     (case steps_FromConfig env opt of
        Inl err \<Rightarrow> Some (Failed (Errorf ''failed to generate steps from config: '' err), opt, w)
      | Inr (buildSteps, postSteps) \<Rightarrow>
        (case resolveInputs (json_Marshal env) opt buildSteps of
           Failed err \<Rightarrow> Some (Failed err, opt, w)
         | Panic p \<Rightarrow> Some (Panic p, opt, w)
         | Ok opt1 \<Rightarrow>
        (case BuildPartialGraph env buildSteps (targets opt1) of
           Inl err \<Rightarrow> Some (Failed err, opt1, w)
         | Inr nodes \<Rightarrow>
        (case printExecutionOrder nodes of
           (lines, Some err) \<Rightarrow> Some (Failed err, opt1, foldl (\<lambda>w l. log_Printf env l w) w lines)
         | (lines, None) \<Rightarrow>
        (case initializeNamespace env opt1 (foldl (\<lambda>w l. log_Printf env l w) w lines) of
           None \<Rightarrow> None
         | Some (Failed err, opt2, w2) \<Rightarrow> Some (Failed err, opt2, w2)
         | Some (Panic p, opt2, w2) \<Rightarrow> Some (Panic p, opt2, w2)
         | Some (Ok u, opt2, w2) \<Rightarrow>
             (case executeGraph env opt2 nodes postSteps w2 of
                (r, w3) \<Rightarrow> Some (r, opt2, w3)))))))"

subsection \<open>Pruning to targets\<close>

text \<open>
  Modelled from the spec: \<^verbatim>\<open>api.BuildPartialGraph\<close> is not part of the sources at hand.
  Pruning keeps, in the order of the world, the steps named by the targets and their
  transitive ancestors: the steps that create a link a kept step requires. An empty
  target list keeps every step.
\<close>

definition requires_from :: "Step \<Rightarrow> Step \<Rightarrow> bool" where
  "requires_from s p \<longleftrightarrow> (\<exists>l\<in>set (Requires s). l \<in> set (Creates p))"

fun ancestorClosure :: "nat \<Rightarrow> Step list \<Rightarrow> Step list \<Rightarrow> Step list" where
  "ancestorClosure 0 world kept = kept"
| "ancestorClosure (Suc k) world kept =
     ancestorClosure k world
       (filter (\<lambda>p. p \<in> set kept \<or> (\<exists>s\<in>set kept. requires_from s p)) world)"

definition prunedSteps :: "Step list \<Rightarrow> string list \<Rightarrow> Step list" where
  "prunedSteps world names =
     (if names = [] then world
      else ancestorClosure (length world) world (filter (\<lambda>s. Name s \<in> set names) world))"

subsection \<open>What a linearization is\<close>

text \<open>
  \<open>linearized sat ns\<close>: every node of \<open>ns\<close> requires only links in \<open>sat\<close> or created by
  nodes strictly before it. \<open>graph_wired roots\<close> describes the graphs the builder
  returns: every step has one node, and every link a node requires is created by a node
  of the graph that has it as a child. (Acyclicity comes with the type of step nodes.)
\<close>

fun linearized :: "StepLink list \<Rightarrow> StepNode list \<Rightarrow> bool" where
  "linearized sat [] = True"
| "linearized sat (n # ns) =
     (HasAllLinks (Requires (Step n)) sat \<and> linearized (sat @ Creates (Step n)) ns)"

definition graph_wired :: "StepNode list \<Rightarrow> bool" where
  "graph_wired roots =
     ((\<forall>n\<in>reachable roots. \<forall>m\<in>reachable roots. Step n = Step m \<longrightarrow> n = m)
      \<and> (\<forall>n\<in>reachable roots. \<forall>l\<in>set (Requires (Step n)).
            \<exists>p\<in>reachable roots. l \<in> set (Creates (Step p)) \<and> n \<in> set (Children p)))"

subsection \<open>Invariants of topologicalSort\<close>

text \<open>
  \<open>emitted_ok\<close> relates the variables that live across passes; \<open>sort_inv\<close> is the
  invariant of the outer loop on a graph with the given roots: the children of a seen
  node, and the roots, are seen or in the list of the next pass.
\<close>

definition emitted_ok :: "sortState \<Rightarrow> bool" where
  "emitted_ok st \<longleftrightarrow>
     seen st = Step ` set (sortedNodes st)
     \<and> distinct (map Step (sortedNodes st))
     \<and> satisfied st = concat (map (Creates \<circ> Step) (sortedNodes st))
     \<and> linearized [] (sortedNodes st)"

definition sort_inv :: "StepNode list \<Rightarrow> StepNode list \<Rightarrow> sortState \<Rightarrow> bool" where
  "sort_inv roots nodes st \<longleftrightarrow>
     set nodes \<subseteq> reachable roots
     \<and> set (sortedNodes st) \<subseteq> reachable roots
     \<and> emitted_ok st
     \<and> (\<forall>p\<in>reachable roots. Step p \<in> seen st \<longrightarrow>
           (\<forall>c\<in>set (Children p). Step c \<in> seen st \<or> c \<in> set nodes))
     \<and> (\<forall>r\<in>set roots. Step r \<in> seen st \<or> r \<in> set nodes)"

section \<open>Example values\<close>

text \<open>Concrete steps, nodes and options on which the theorems below are instantiated.\<close>

definition mkStep ::
  "nat \<Rightarrow> string \<Rightarrow> StepLink list \<Rightarrow> StepLink list \<Rightarrow> InputDefinition \<Rightarrow> Step" where
  "mkStep r n req cre ins =
     \<lparr>ref = r, goType = ''*steps.exampleStep'', Name = n, Requires = req, Creates = cre,
      Inputs = (\<lambda>d. Inr ins)\<rparr>"

definition stepP :: Step where
  "stepP = mkStep 1 ''p'' [] [PipelineImageLink ''p''] [''p1'', ''p2'']"

definition stepQ :: Step where
  "stepQ = mkStep 2 ''q'' [] [PipelineImageLink ''q''] [''q'']"

definition exampleOptions :: "string options" where
  "exampleOptions =
     \<lparr>targets = [''p''], dry = False, artifactDir = ''/artifacts'', namespace = [],
      idleCleanupDuration = 600, inputHash_opt = [], secrets = [], configSpec = ''{}'',
      jobSpec = \<lparr>Job = ''dev'',
                 Refs = \<lparr>Org = ''org'', Repo = ''repo'', BaseRef = ''master'', BaseSHA = ''abc'',
                         Pulls = []\<rparr>,
                 js_namespace = [], js_owner = None\<rparr>\<rparr>"

definition stepPQ :: Step where
  "stepPQ = mkStep 3 ''pq'' [] [] [''p1'', ''p2'', ''q'']"

definition otherOptions :: "string options" where
  "otherOptions = exampleOptions\<lparr>targets := [], dry := True, namespace := ''other''\<rparr>"

text \<open>A diamond: \<open>src\<close> feeds \<open>a\<close> and \<open>b\<close>, and \<open>join\<close> needs both.\<close>

definition nodeJoin :: StepNode where
  "nodeJoin = StepNode (mkStep 13 ''join'' [PipelineImageLink ''x'', PipelineImageLink ''y'']
                                  [PipelineImageLink ''z''] [''ij'']) []"

definition nodeA :: StepNode where
  "nodeA = StepNode (mkStep 11 ''a'' [RootSourceLink] [PipelineImageLink ''x''] [''ia'']) [nodeJoin]"

definition nodeB :: StepNode where
  "nodeB = StepNode (mkStep 12 ''b'' [RootSourceLink] [PipelineImageLink ''y''] [''ib'']) [nodeJoin]"

definition nodeSrc :: StepNode where
  "nodeSrc = StepNode (mkStep 10 ''src'' [] [RootSourceLink] [''is'']) [nodeA, nodeB]"

text \<open>Two independent roots, listed against the order of their names.\<close>

definition nodeP :: StepNode where
  "nodeP = StepNode stepP []"

definition nodeQ :: StepNode where
  "nodeQ = StepNode stepQ []"

text \<open>
  An environment whose world is the list of the calls made so far. Every call succeeds.
  The configuration has the steps \<open>p\<close> and \<open>q\<close>, neither of which requires a link of
  the other, so the graph of the pruned steps is their nodes without children: for the
  target \<open>p\<close> it is the node of \<open>p\<close>.
\<close>

definition traceEnv :: "(string, string list) env" where
  "traceEnv =
     \<lparr>json_Marshal = Inr,
      xml_MarshalIndent = (\<lambda>suites. Inr ''<testsuites/>''),
      filepath_Join = (\<lambda>dir file. dir @ ''/'' @ file),
      Duration_String = (\<lambda>d. ''10m0s''),
      PipelineImageStream = ''pipeline'',
      steps_FromConfig = (\<lambda>opt. Inr ([stepP, stepQ], [])),
      BuildPartialGraph = (\<lambda>steps names. Inr (map (\<lambda>s. StepNode s []) (prunedSteps steps names))),
      steps_Run = (\<lambda>nodes d w. ((Some \<lparr>Suites = [\<lparr>suite_Name = []\<rparr>]\<rparr>, None), w @ [''steps.Run''])),
      step_Run = (\<lambda>step d w. (None, w @ [''Run '' @ Name step])),
      log_Printf = (\<lambda>line w. w @ [''log: '' @ line]),
      time_Sleep = (\<lambda>n w. w @ [''Sleep'']),
      ioutil_WriteFile = (\<lambda>path out w. (None, w @ [''WriteFile '' @ path])),
      project_NewForConfig = None,
      image_NewForConfig = None,
      core_NewForConfig = None,
      rbac_NewForConfig = None,
      ProjectRequests_Create = (\<lambda>req w. (Inr \<lparr>Phase = NamespaceActive\<rparr>, w @ [''ProjectRequests.Create '' @ pr_Name req])),
      Projects_Get = (\<lambda>name w. (Inr \<lparr>Phase = NamespaceActive\<rparr>, w @ [''Projects.Get''])),
      ServiceAccounts_Create = (\<lambda>ns name w. (None, w @ [''ServiceAccounts.Create''])),
      RoleBindings_Create = (\<lambda>ns name w. (None, w @ [''RoleBindings.Create''])),
      Pods_Create_cleanup = (\<lambda>ns d w. (None, w @ [''Pods.Create''])),
      ImageStreams_Create = (\<lambda>stream w. ((Some (stream\<lparr>is_UID := ''uid-1''\<rparr>), None), w @ [''ImageStreams.Create''])),
      ImageStreams_Get = (\<lambda>ns name w. ((None, Some (StatusError NotFound ''not found'')), w @ [''ImageStreams.Get''])),
      Secrets_Create = (\<lambda>ns secret w. (None, w @ [''Secrets.Create''])),
      Secrets_Get = (\<lambda>ns name w. (Inl (StatusError NotFound ''not found''), w @ [''Secrets.Get''])),
      Secrets_Update = (\<lambda>ns secret w. (None, w @ [''Secrets.Update'']))\<rparr>"

text \<open>The same environment, except that writing a file fails.\<close>

definition readOnlyEnv :: "(string, string list) env" where
  "readOnlyEnv =
     traceEnv\<lparr>ioutil_WriteFile :=
       (\<lambda>path out w. (Some (errorString ''read-only file system''), w @ [''WriteFile '' @ path]))\<rparr>"

text \<open>
  A graph that is not wired as the builder wires it: \<open>m\<close> requires the link that its
  child \<open>k\<close> creates.
\<close>

definition nodeK :: StepNode where
  "nodeK = StepNode (mkStep 21 ''k'' [] [PipelineImageLink ''k''] []) []"

definition nodeM :: StepNode where
  "nodeM = StepNode (mkStep 20 ''m'' [PipelineImageLink ''k''] [] []) [nodeK]"

section \<open>Auxiliary facts\<close>

subsection \<open>Facts about the hash and the encoding\<close>

lemma length_round256: "length (round256 v kw) = length v"
  by (cases "(v, kw)" rule: round256.cases) (simp_all add: Let_def)

lemma length_foldl_round256: "length (foldl round256 v kws) = length v"
  by (induction kws arbitrary: v) (simp_all add: length_round256)

lemma length_block: "length (block h p) = length h"
  by (simp add: block_def length_foldl_round256)

lemma length_blocks: "length (blocks h p) = length h"
proof (induction h p rule: blocks.induct)
  case (1 h p)
  show ?case
  proof (cases "length p < 64")
    case True
    then show ?thesis by (subst blocks.simps) simp
  next
    case False
    then have "length (blocks (block h (take 64 p)) (drop 64 p)) = length (block h (take 64 p))"
      by (rule "1.IH")
    with False show ?thesis by (subst blocks.simps) (simp add: length_block)
  qed
qed

lemma length_concat_put_uint32: "length (concat (map put_uint32 ws)) = 4 * length ws"
  by (induction ws) (simp_all add: put_uint32_def)

lemma length_init256: "length init256 = 8"
  by (simp add: init256_def)

lemma length_sha256: "length (sha256 msg) = 32"
  by (simp add: sha256_def length_concat_put_uint32 length_blocks length_init256)

lemma foldl_hash_Write:
  "foldl (\<lambda>hash s. hash_Write hash (bytes s)) d inputs = d @ bytes (concat inputs)"
  by (induction inputs arbitrary: d) (simp_all add: hash_Write_def bytes_def)

lemma inputHash_concat:
  "inputHash inputs = EncodeToString oneWayNameEncoding (take 5 (sha256 (bytes (concat inputs))))"
  by (simp add: inputHash_def foldl_hash_Write sha256_New_def hash_Sum_def)

lemma length_quantum: "length (quantum src) = 8"
  by (simp add: quantum_def Let_def)

lemma EncodeToString_five:
  assumes "length src = 5"
  shows "EncodeToString enc src = map (\<lambda>v. encodeMap enc ! unat (v AND 31)) (quantum src)"
proof -
  from assms have "src \<noteq> []" and "\<not> length src < 5" and "drop 5 src = []"
    by auto
  then show ?thesis
    by (subst EncodeToString.simps) (simp add: EncodeToString.simps [of enc "[]"])
qed

lemma unat_and_31: "unat ((v :: byte) AND 31) < 32"
proof -
  have "unat (v AND 31) \<le> unat (31 :: byte)"
    by (rule word_and_le1 [THEN word_le_nat_alt [THEN iffD1]])
  then show ?thesis by simp
qed

lemma inputHash_quantum:
  "inputHash inputs =
     map (\<lambda>v. encodeMap oneWayNameEncoding ! unat (v AND 31))
       (quantum (take 5 (sha256 (bytes (concat inputs)))))"
  by (simp add: inputHash_concat EncodeToString_five length_sha256)

lemma alphabet_facts:
  "length (encodeMap oneWayNameEncoding) = 32"
  "distinct (encodeMap oneWayNameEncoding)"
  "set (encodeMap oneWayNameEncoding) \<subseteq> set ''abcdefghijklmnopqrstuvwxyz0123456789''"
  "set (encodeMap oneWayNameEncoding) \<inter> set ''oaeu'' = {}"
  "padChar oneWayNameEncoding = None"
  by (simp_all add: oneWayNameEncoding_def)

lemma inputHash_in_alphabet: "set (inputHash inputs) \<subseteq> set (encodeMap oneWayNameEncoding)"
proof -
  have "encodeMap oneWayNameEncoding ! unat (v AND 31) \<in> set (encodeMap oneWayNameEncoding)"
    for v :: byte
    by (rule nth_mem) (simp add: alphabet_facts(1) unat_and_31)
  then show ?thesis
    by (auto simp: inputHash_quantum)
qed

lemma collectInputs_all:
  "map (\<lambda>s. Inputs s d) steps = map Inr defs \<Longrightarrow>
     collectInputs d steps acc = Inr (acc @ concat defs)"
proof (induction steps arbitrary: defs acc)
  case Nil
  then show ?case by simp
next
  case (Cons s steps)
  then obtain df defs' where "defs = df # defs'" "Inputs s d = Inr df"
     "map (\<lambda>s. Inputs s d) steps = map Inr defs'"
    by (cases defs) auto
  with Cons.IH [of defs' "acc @ df"] show ?case by simp
qed

lemma collectInputs_fail:
  "map (\<lambda>s. Inputs s d) pre = map Inr defs \<Longrightarrow> Inputs s d = Inl err \<Longrightarrow>
     collectInputs d (pre @ s # post) acc = Inl err"
proof (induction pre arbitrary: defs acc)
  case Nil
  then show ?case by simp
next
  case (Cons p pre)
  then obtain df defs' where "defs = df # defs'" "Inputs p d = Inr df"
     "map (\<lambda>s. Inputs s d) pre = map Inr defs'"
    by (cases defs) auto
  with Cons.IH [of defs' "acc @ df"] Cons.prems(2) show ?case by simp
qed

lemma resolveInputs_Ok:
  "resolvedInputs m opt steps = Ok inputs \<Longrightarrow>
     resolveInputs m opt steps =
       Ok (opt\<lparr>inputHash_opt := inputHash inputs,
               namespace := strings_Replace (if namespace opt = [] then ''ci-op-{id}'' else namespace opt)
                              ''{id}'' (inputHash inputs),
               jobSpec := SetNamespace (jobSpec opt)
                  (strings_Replace (if namespace opt = [] then ''ci-op-{id}'' else namespace opt)
                              ''{id}'' (inputHash inputs))\<rparr>)"
  by (simp add: resolveInputs_def Let_def)

subsection \<open>Facts about the namespace template\<close>

lemma id_not_prefix_after:
  assumes "\<not> sublist ''{id}'' q" and "q \<noteq> []"
  shows "\<not> prefix ''{id}'' (q @ ''{id}'' @ rest)"
proof
  assume p: "prefix ''{id}'' (q @ ''{id}'' @ rest)"
  show False
  proof (cases "length q < 4")
    case False
    have "prefix q (q @ ''{id}'' @ rest)" by simp
    with p False have "prefix ''{id}'' q"
      by (intro prefix_length_prefix [of "''{id}''" "q @ ''{id}'' @ rest" q]) simp_all
    with assms(1) show False
      by auto
  next
    case True
    then consider a where "q = [a]" | a b where "q = [a, b]" | a b c where "q = [a, b, c]"
      using assms(2)
      by (cases q; cases "tl q"; cases "tl (tl q)"; cases "tl (tl (tl q))") auto
    then show False using p by cases auto
  qed
qed

lemma not_sublist_Cons: "\<not> sublist xs (c # q) \<Longrightarrow> \<not> sublist xs q"
  by (auto simp: sublist_Cons_right)

lemma not_sublist_not_prefix: "\<not> sublist xs q \<Longrightarrow> \<not> prefix xs q"
  by auto

lemma Replace_no_occurrence:
  "\<not> sublist old q \<Longrightarrow> strings_Replace q old new = q"
proof (induction q)
  case Nil
  then show ?case by simp
next
  case (Cons c q)
  from Cons.prems have "\<not> prefix old (c # q)" by (rule not_sublist_not_prefix)
  moreover from Cons have "strings_Replace q old new = q"
    by (auto dest: not_sublist_Cons)
  ultimately show ?case by simp
qed

lemma Replace_at_occurrence:
  assumes "old \<noteq> []"
  shows "strings_Replace (old @ rest) old new = new @ strings_Replace rest old new"
proof -
  from assms obtain a old' where old: "old = a # old'" by (cases old) auto
  have "strings_Replace (a # old' @ rest) old new
          = new @ strings_Replace (drop (length old) (a # old' @ rest)) old new"
    by (simp add: old)
  then show ?thesis by (simp add: old)
qed

lemma Replace_first_piece:
  assumes bf: "\<And>q rest. q \<noteq> [] \<Longrightarrow> \<not> sublist old q \<Longrightarrow> \<not> prefix old (q @ old @ rest)"
    and ne: "old \<noteq> []"
  shows "\<not> sublist old q \<Longrightarrow>
     strings_Replace (q @ old @ rest) old new = q @ new @ strings_Replace rest old new"
proof (induction q)
  case Nil
  from Replace_at_occurrence [OF ne] show ?case by simp
next
  case (Cons c q)
  from bf [OF _ Cons.prems, of rest]
  have np: "\<not> prefix old (c # q @ old @ rest)" by simp
  from Cons have "strings_Replace (q @ old @ rest) old new
                    = q @ new @ strings_Replace rest old new"
    by (auto dest: not_sublist_Cons)
  with np show ?case by simp
qed

lemma Replace_Join_gen:
  assumes bf: "\<And>q rest. q \<noteq> [] \<Longrightarrow> \<not> sublist old q \<Longrightarrow> \<not> prefix old (q @ old @ rest)"
    and ne: "old \<noteq> []"
  shows "\<forall>p\<in>set pieces. \<not> sublist old p \<Longrightarrow>
     strings_Replace (strings_Join pieces old) old new = strings_Join pieces new"
proof (induction pieces)
  case Nil
  then show ?case by simp
next
  case (Cons a ps)
  show ?case
  proof (cases ps)
    case Nil
    with Cons.prems show ?thesis by (simp add: Replace_no_occurrence)
  next
    case (Cons b rest)
    from Cons.prems have a: "\<not> sublist old a" by simp
    from Cons.prems Cons.IH
    have ih: "strings_Replace (strings_Join ps old) old new = strings_Join ps new" by simp
    have "strings_Replace (a @ old @ strings_Join ps old) old new
            = a @ new @ strings_Replace (strings_Join ps old) old new"
      using bf ne a by (rule Replace_first_piece)
    with ih Cons show ?thesis by simp
  qed
qed

lemma Replace_Join:
  "\<forall>p\<in>set pieces. \<not> sublist ''{id}'' p \<Longrightarrow>
     strings_Replace (strings_Join pieces ''{id}'') ''{id}'' new = strings_Join pieces new"
proof (rule Replace_Join_gen)
  show "\<not> prefix ''{id}'' (q @ ''{id}'' @ rest)" if "q \<noteq> []" "\<not> sublist ''{id}'' q" for q rest
    using that by (intro id_not_prefix_after)
  show "''{id}'' \<noteq> []" by simp
qed

lemma Replace_default: "strings_Replace ''ci-op-{id}'' ''{id}'' new = ''ci-op-'' @ new"
  by simp

lemma resolveInputs_Ok_iff:
  "resolveInputs m opt steps = Ok opt' \<Longrightarrow> \<exists>inputs. resolvedInputs m opt steps = Ok inputs"
  by (auto simp: resolveInputs_def split: result.splits)

subsection \<open>Facts about topologicalSort\<close>

lemma HasAllLinks_iff: "HasAllLinks needles haystack \<longleftrightarrow> set needles \<subseteq> set haystack"
  by (auto simp: HasAllLinks_def list_all_iff)

lemma HasAllLinks_append: "HasAllLinks needles hay \<Longrightarrow> HasAllLinks needles (hay @ extra)"
  by (auto simp: HasAllLinks_iff)

lemma linearized_snoc:
  "linearized sat (ns @ [n]) \<longleftrightarrow>
     linearized sat ns \<and> HasAllLinks (Requires (Step n)) (sat @ concat (map (Creates \<circ> Step) ns))"
  by (induction ns arbitrary: sat) auto

subsection \<open>One visit\<close>

lemma waiting_visit_mono: "set (waiting st) \<subseteq> set (waiting (visit st n))"
  by (auto simp: visit_def Let_def)

lemma visit_processed: "Step n \<in> seen (visit st n) \<or> n \<in> set (waiting (visit st n))"
  by (auto simp: visit_def Let_def)

lemma visit_new_seen:
  "s \<in> seen (visit st n) \<Longrightarrow> s \<notin> seen st \<Longrightarrow>
     s = Step n \<and> (\<forall>c\<in>set (Children n). Step c \<in> seen (visit st n) \<or> c \<in> set (waiting (visit st n)))"
  by (auto simp: visit_def Let_def split: if_splits)

lemma visit_unchanged:
  "\<not> changed (visit st n) \<Longrightarrow>
     \<not> changed st \<and> seen (visit st n) = seen st \<and> satisfied (visit st n) = satisfied st
     \<and> sortedNodes (visit st n) = sortedNodes st
     \<and> (\<forall>w\<in>set (waiting (visit st n)). w \<in> set (waiting st) \<or> Step w \<notin> seen st)"
  by (auto simp: visit_def Let_def split: if_splits)

lemma changed_visit_mono: "changed st \<Longrightarrow> changed (visit st n)"
  by (auto simp: visit_def Let_def)

lemma visit_emits:
  "Step n \<notin> seen st \<Longrightarrow> HasAllLinks (Requires (Step n)) (satisfied st) \<Longrightarrow> changed (visit st n)"
  by (auto simp: visit_def Let_def)

lemma visit_keeps_ready:
  "\<not> changed (visit st x) \<Longrightarrow> Step n \<notin> seen st \<Longrightarrow> HasAllLinks (Requires (Step n)) (satisfied st)
     \<Longrightarrow> Step n \<notin> seen (visit st x) \<and> HasAllLinks (Requires (Step n)) (satisfied (visit st x))"
  by (auto dest: visit_unchanged)

lemma visit_emitted_ok: "emitted_ok st \<Longrightarrow> emitted_ok (visit st n)"
  by (auto simp: visit_def Let_def emitted_ok_def linearized_snoc)

lemma visit_sortedNodes:
  "\<exists>ys. sortedNodes (visit st n) = sortedNodes st @ ys \<and> subseq ys [n]
        \<and> (\<forall>y\<in>set ys. Step y \<notin> seen st)"
  by (auto simp: visit_def Let_def)

subsection \<open>A whole pass\<close>

lemma waiting_foldl_mono: "set (waiting st) \<subseteq> set (waiting (foldl visit st ns))"
proof (induction ns arbitrary: st)
  case Nil
  then show ?case by simp
next
  case (Cons n ns)
  from waiting_visit_mono [of st n] Cons.IH [of "visit st n"] show ?case by auto
qed

lemma foldl_processed:
  "n \<in> set ns \<Longrightarrow>
     Step n \<in> seen (foldl visit st ns) \<or> n \<in> set (waiting (foldl visit st ns))"
proof (induction ns arbitrary: st)
  case Nil
  then show ?case by simp
next
  case (Cons x ns)
  show ?case
  proof (cases "n \<in> set ns")
    case True
    from Cons.IH [OF True, of "visit st x"] show ?thesis by simp
  next
    case False
    with Cons.prems have "x = n" by simp
    with visit_processed [of n st] seen_foldl_visit [of "visit st n" ns]
      waiting_foldl_mono [of "visit st n" ns]
    show ?thesis by auto
  qed
qed

lemma foldl_new_seen:
  "s \<in> seen (foldl visit st ns) \<Longrightarrow> s \<notin> seen st \<Longrightarrow>
     \<exists>q\<in>set ns. Step q = s
        \<and> (\<forall>c\<in>set (Children q). Step c \<in> seen (foldl visit st ns)
                                    \<or> c \<in> set (waiting (foldl visit st ns)))"
proof (induction ns arbitrary: st)
  case Nil
  then show ?case by simp
next
  case (Cons x ns)
  let ?st = "visit st x"
  show ?case
  proof (cases "s \<in> seen ?st")
    case True
    from visit_new_seen [OF True Cons.prems(2)]
    have "s = Step x" and "\<forall>c\<in>set (Children x). Step c \<in> seen ?st \<or> c \<in> set (waiting ?st)"
      by auto
    with seen_foldl_visit [of ?st ns] waiting_foldl_mono [of ?st ns]
    have "Step x = s \<and> (\<forall>c\<in>set (Children x). Step c \<in> seen (foldl visit ?st ns)
                                    \<or> c \<in> set (waiting (foldl visit ?st ns)))"
      by blast
    then show ?thesis by auto
  next
    case False
    from Cons.prems(1) have "s \<in> seen (foldl visit ?st ns)" by simp
    from Cons.IH [OF this False] show ?thesis by auto
  qed
qed

lemma foldl_unchanged:
  "\<not> changed (foldl visit st ns) \<Longrightarrow>
     \<not> changed st \<and> seen (foldl visit st ns) = seen st
     \<and> sortedNodes (foldl visit st ns) = sortedNodes st
     \<and> (\<forall>w\<in>set (waiting (foldl visit st ns)). w \<in> set (waiting st) \<or> Step w \<notin> seen st)"
proof (induction ns arbitrary: st)
  case Nil
  then show ?case by simp
next
  case (Cons x ns)
  from Cons.prems have "\<not> changed (foldl visit (visit st x) ns)" by simp
  from Cons.IH [OF this] have a: "\<not> changed (visit st x)"
    and b: "seen (foldl visit (visit st x) ns) = seen (visit st x)"
    and b': "sortedNodes (foldl visit (visit st x) ns) = sortedNodes (visit st x)"
    and c: "\<forall>w\<in>set (waiting (foldl visit (visit st x) ns)).
              w \<in> set (waiting (visit st x)) \<or> Step w \<notin> seen (visit st x)"
    by auto
  from visit_unchanged [OF a] b b' c show ?case by auto
qed

lemma changed_foldl_mono: "changed st \<Longrightarrow> changed (foldl visit st ns)"
  by (induction ns arbitrary: st) (simp_all add: changed_visit_mono)

lemma foldl_emits:
  "n \<in> set ns \<Longrightarrow> Step n \<notin> seen st \<Longrightarrow> HasAllLinks (Requires (Step n)) (satisfied st)
     \<Longrightarrow> changed (foldl visit st ns)"
proof (induction ns arbitrary: st)
  case Nil
  then show ?case by simp
next
  case (Cons x ns)
  show ?case
  proof (cases "changed (visit st x)")
    case True
    then show ?thesis by (simp add: changed_foldl_mono)
  next
    case False
    from visit_keeps_ready [OF False Cons.prems(2,3)]
    have r: "Step n \<notin> seen (visit st x)"
        "HasAllLinks (Requires (Step n)) (satisfied (visit st x))"
      by auto
    from False visit_emits [OF Cons.prems(2,3)] have "x \<noteq> n" by auto
    with Cons.prems(1) have "n \<in> set ns" by simp
    from Cons.IH [OF this r] show ?thesis by simp
  qed
qed

lemma foldl_emitted_ok: "emitted_ok st \<Longrightarrow> emitted_ok (foldl visit st ns)"
  by (induction ns arbitrary: st) (simp_all add: visit_emitted_ok)

lemma foldl_sortedNodes:
  "\<exists>ys. sortedNodes (foldl visit st ns) = sortedNodes st @ ys \<and> subseq ys ns
        \<and> (\<forall>y\<in>set ys. Step y \<notin> seen st)"
proof (induction ns arbitrary: st)
  case Nil
  then show ?case by simp
next
  case (Cons x ns)
  from visit_sortedNodes [of st x] obtain ys where
    ys: "sortedNodes (visit st x) = sortedNodes st @ ys" "subseq ys [x]" "\<forall>y\<in>set ys. Step y \<notin> seen st"
    by blast
  from Cons.IH [of "visit st x"] obtain zs where
    zs: "sortedNodes (foldl visit (visit st x) ns) = sortedNodes (visit st x) @ zs"
      "subseq zs ns" "\<forall>y\<in>set zs. Step y \<notin> seen (visit st x)"
    by blast
  from ys(2) zs(2) have "subseq (ys @ zs) ([x] @ ns)"
    by (rule list_emb_append_mono)
  moreover from zs(3) seen_visit [of st x] have "\<forall>y\<in>set zs. Step y \<notin> seen st" by auto
  ultimately show ?case using ys zs by auto
qed

subsection \<open>The graph\<close>

lemma nodes_of_trans: "p \<in> nodes_of r \<Longrightarrow> nodes_of p \<subseteq> nodes_of r"
proof (induction r)
  case (StepNode s cs)
  show ?case
  proof (cases "p = StepNode s cs")
    case True
    then show ?thesis by simp
  next
    case False
    with StepNode.prems obtain c where c: "c \<in> set cs" "p \<in> nodes_of c" by auto
    from StepNode.IH [OF c] c(1) show ?thesis by auto
  qed
qed

lemma child_reachable:
  assumes "p \<in> reachable roots" and "c \<in> set (Children p)"
  shows "c \<in> reachable roots"
proof -
  from assms(1) obtain r where r: "r \<in> set roots" "p \<in> nodes_of r"
    by (auto simp: reachable_def)
  have "c \<in> nodes_of c" by (rule self_in_nodes_of)
  with children_in_nodes_of [OF assms(2)] have "c \<in> nodes_of p" by blast
  with nodes_of_trans [OF r(2)] have "c \<in> nodes_of r" by blast
  with r(1) show ?thesis by (auto simp: reachable_def)
qed

lemma root_reachable: "r \<in> set roots \<Longrightarrow> r \<in> reachable roots"
  using self_in_nodes_of by (auto simp: reachable_def)

lemma nodes_of_cases:
  "n \<in> nodes_of r \<Longrightarrow> n = r \<or> (\<exists>p\<in>nodes_of r. n \<in> set (Children p))"
proof (induction r)
  case (StepNode s cs)
  show ?case
  proof (cases "n = StepNode s cs")
    case True
    then show ?thesis by simp
  next
    case False
    with StepNode.prems obtain c where c: "c \<in> set cs" "n \<in> nodes_of c" by auto
    from StepNode.IH [OF c] consider "n = c" | p where "p \<in> nodes_of c" "n \<in> set (Children p)"
      by blast
    then show ?thesis
    proof cases
      case 1
      with c(1) have "n \<in> set (Children (StepNode s cs))" by simp
      then show ?thesis using self_in_nodes_of by blast
    next
      case 2
      with c(1) have "p \<in> nodes_of (StepNode s cs)" by auto
      with 2 show ?thesis by blast
    qed
  qed
qed

lemma reachable_cases:
  assumes "n \<in> reachable roots"
  shows "n \<in> set roots \<or> (\<exists>p\<in>reachable roots. n \<in> set (Children p))"
proof -
  from assms obtain r where r: "r \<in> set roots" "n \<in> nodes_of r"
    by (auto simp: reachable_def)
  from nodes_of_cases [OF r(2)] show ?thesis
  proof
    assume "n = r"
    with r(1) show ?thesis by simp
  next
    assume "\<exists>p\<in>nodes_of r. n \<in> set (Children p)"
    then obtain p where "p \<in> nodes_of r" "n \<in> set (Children p)" by blast
    with r(1) show ?thesis by (auto simp: reachable_def)
  qed
qed

lemma size_child: "c \<in> set (Children p) \<Longrightarrow> size c < size p"
proof (cases p)
  case (StepNode s cs)
  have "c \<in> set cs \<Longrightarrow> size c < Suc (size_list size cs)" for cs :: "StepNode list"
    by (induction cs) auto
  with StepNode show "c \<in> set (Children p) \<Longrightarrow> size c < size p" by auto
qed

lemma reachable_induct [consumes 1, case_names root child]:
  assumes "n \<in> reachable roots"
    and "\<And>r. r \<in> set roots \<Longrightarrow> P r"
    and "\<And>p c. p \<in> reachable roots \<Longrightarrow> P p \<Longrightarrow> c \<in> set (Children p) \<Longrightarrow> P c"
  shows "P n"
proof -
  have "m \<in> nodes_of r \<Longrightarrow> r \<in> reachable roots \<Longrightarrow> P r \<Longrightarrow> P m" for m r
  proof (induction r)
    case (StepNode s cs)
    show ?case
    proof (cases "m = StepNode s cs")
      case True
      with StepNode.prems show ?thesis by simp
    next
      case False
      with StepNode.prems obtain c where c: "c \<in> set cs" "m \<in> nodes_of c" by auto
      then have cc: "c \<in> set (Children (StepNode s cs))" by simp
      from child_reachable [OF StepNode.prems(2) cc] have "c \<in> reachable roots" .
      moreover from assms(3) [OF StepNode.prems(2,3) cc] have "P c" .
      ultimately show ?thesis using StepNode.IH [OF c] by blast
    qed
  qed
  note step = this
  from assms(1) obtain r where r: "r \<in> set roots" "n \<in> nodes_of r"
    by (auto simp: reachable_def)
  from step [OF r(2) root_reachable [OF r(1)] assms(2) [OF r(1)]] show ?thesis .
qed

lemma pass_unfold: "pass st ns = foldl visit (st\<lparr>waiting := [], changed := False\<rparr>) ns"
  by (simp add: pass_def)

lemma sort_inv_all_seen:
  assumes "sort_inv roots [] st" and "n \<in> reachable roots"
  shows "Step n \<in> seen st"
  using assms(2)
proof (induction rule: reachable_induct)
  case (root r)
  with assms(1) show ?case by (auto simp: sort_inv_def)
next
  case (child p c)
  with assms(1) show ?case by (auto simp: sort_inv_def)
qed

lemma sort_inv_done:
  assumes inv: "sort_inv roots [] st" and wired: "graph_wired roots"
  shows "set (sortedNodes st) = reachable roots"
proof
  from inv show "set (sortedNodes st) \<subseteq> reachable roots" by (simp add: sort_inv_def)
  show "reachable roots \<subseteq> set (sortedNodes st)"
  proof
    fix n assume n: "n \<in> reachable roots"
    from sort_inv_all_seen [OF inv n] inv obtain q
      where q: "q \<in> set (sortedNodes st)" "Step q = Step n"
      by (auto simp: sort_inv_def emitted_ok_def)
    moreover from q(1) inv have "q \<in> reachable roots" by (auto simp: sort_inv_def)
    ultimately have "q = n" using wired n by (auto simp: graph_wired_def)
    with q(1) show "n \<in> set (sortedNodes st)" by simp
  qed
qed

lemma pass_waiting_reachable:
  assumes "set nodes \<subseteq> reachable roots"
  shows "set (waiting (pass st nodes)) \<subseteq> reachable roots"
proof
  fix w assume "w \<in> set (waiting (pass st nodes))"
  with waiting_foldl_visit [of "st\<lparr>waiting := [], changed := False\<rparr>" nodes]
  have "w \<in> set nodes \<or> (\<exists>n\<in>set nodes. w \<in> set (Children n))"
    by (auto simp: pass_unfold)
  with assms child_reachable show "w \<in> reachable roots" by blast
qed

lemma pass_sorted_reachable:
  assumes "set nodes \<subseteq> reachable roots" "set (sortedNodes st) \<subseteq> reachable roots"
  shows "set (sortedNodes (pass st nodes)) \<subseteq> reachable roots"
proof -
  from foldl_sortedNodes [of "st\<lparr>waiting := [], changed := False\<rparr>" nodes]
  obtain ys where "sortedNodes (pass st nodes) = sortedNodes st @ ys" "subseq ys nodes"
    by (auto simp: pass_unfold)
  moreover from this(2) have "set ys \<subseteq> set nodes" by (auto elim: list_emb_set)
  ultimately show ?thesis using assms by auto
qed

lemma sort_inv_pass:
  assumes inv: "sort_inv roots nodes st" and wired: "graph_wired roots"
  shows "sort_inv roots (waiting (pass st nodes)) (pass st nodes)"
proof -
  let ?st0 = "st\<lparr>waiting := [], changed := False\<rparr>"
  let ?st' = "pass st nodes"
  from inv have nodes: "set nodes \<subseteq> reachable roots"
    and sorted: "set (sortedNodes st) \<subseteq> reachable roots"
    and ok: "emitted_ok st"
    and kids: "\<forall>p\<in>reachable roots. Step p \<in> seen st \<longrightarrow>
           (\<forall>c\<in>set (Children p). Step c \<in> seen st \<or> c \<in> set nodes)"
    and rts: "\<forall>r\<in>set roots. Step r \<in> seen st \<or> r \<in> set nodes"
    by (auto simp: sort_inv_def)
  have mono: "seen st \<subseteq> seen ?st'"
    using seen_foldl_visit [of ?st0 nodes] by (simp add: pass_unfold)
  have proc: "Step n \<in> seen ?st' \<or> n \<in> set (waiting ?st')" if "n \<in> set nodes" for n
    using foldl_processed [OF that, of ?st0] by (simp add: pass_unfold)
  from ok have "emitted_ok ?st0" by (simp add: emitted_ok_def)
  then have ok': "emitted_ok ?st'"
    unfolding pass_unfold by (rule foldl_emitted_ok)
  have kids': "Step c \<in> seen ?st' \<or> c \<in> set (waiting ?st')"
    if p: "p \<in> reachable roots" "Step p \<in> seen ?st'" and c: "c \<in> set (Children p)" for p c
  proof (cases "Step p \<in> seen st")
    case True
    with kids p(1) c have "Step c \<in> seen st \<or> c \<in> set nodes" by blast
    with mono proc show ?thesis by blast
  next
    case False
    with p(2) foldl_new_seen [of "Step p" ?st0 nodes]
    obtain q where q: "q \<in> set nodes" "Step q = Step p"
      "\<forall>c\<in>set (Children q). Step c \<in> seen ?st' \<or> c \<in> set (waiting ?st')"
      by (auto simp: pass_unfold)
    from q(1) nodes have "q \<in> reachable roots" by blast
    with wired p(1) q(2) have "q = p" by (auto simp: graph_wired_def)
    with q(3) c show ?thesis by blast
  qed
  have rts': "Step r \<in> seen ?st' \<or> r \<in> set (waiting ?st')" if "r \<in> set roots" for r
    using rts that mono proc by blast
  from pass_waiting_reachable [OF nodes] pass_sorted_reachable [OF nodes sorted] ok' kids' rts'
  show ?thesis unfolding sort_inv_def by blast
qed

lemma sort_inv_progress:
  assumes inv: "sort_inv roots nodes st" and wired: "graph_wired roots"
    and stuck: "\<not> changed (pass st nodes)"
  shows "waiting (pass st nodes) = []"
proof (rule ccontr)
  let ?st0 = "st\<lparr>waiting := [], changed := False\<rparr>"
  let ?st' = "pass st nodes"
  let ?X = "{n \<in> reachable roots. Step n \<notin> seen st}"
  assume "waiting ?st' \<noteq> []"
  then obtain w where w: "w \<in> set (waiting ?st')" by (cases "waiting ?st'") auto
  from inv have nodes: "set nodes \<subseteq> reachable roots"
    and ok: "emitted_ok st"
    and kids: "\<forall>p\<in>reachable roots. Step p \<in> seen st \<longrightarrow>
           (\<forall>c\<in>set (Children p). Step c \<in> seen st \<or> c \<in> set nodes)"
    and rts: "\<forall>r\<in>set roots. Step r \<in> seen st \<or> r \<in> set nodes"
    by (auto simp: sort_inv_def)
  from stuck foldl_unchanged [of ?st0 nodes] w have "Step w \<notin> seen st"
    by (auto simp: pass_unfold)
  with w pass_waiting_reachable [OF nodes, of st] have "w \<in> ?X" by auto
  then have ne: "?X \<noteq> {}" by blast
  have fin: "finite ?X" by (simp add: finite_reachable)
  from fin ne have "Max (size ` ?X) \<in> size ` ?X" by (intro Max_in) auto
  then obtain n where n: "n \<in> ?X" "size n = Max (size ` ?X)" by auto
  have maxi: "size m \<le> size n" if "m \<in> ?X" for m
    using that fin n(2) by (auto intro: Max_ge)
  have parents: "Step p \<in> seen st" if "p \<in> reachable roots" "n \<in> set (Children p)" for p
  proof (rule ccontr)
    assume "Step p \<notin> seen st"
    with that(1) have "p \<in> ?X" by simp
    from maxi [OF this] size_child [OF that(2)] show False by simp
  qed
  from n(1) have nr: "n \<in> reachable roots" and nu: "Step n \<notin> seen st" by auto
  have "n \<in> set nodes"
    using reachable_cases [OF nr] rts kids parents nu by blast
  moreover have "HasAllLinks (Requires (Step n)) (satisfied st)"
    unfolding HasAllLinks_iff
  proof
    fix l assume "l \<in> set (Requires (Step n))"
    with wired nr obtain p where p: "p \<in> reachable roots" "l \<in> set (Creates (Step p))"
        "n \<in> set (Children p)"
      unfolding graph_wired_def by blast
    from parents [OF p(1,3)] ok obtain q where q: "q \<in> set (sortedNodes st)" "Step q = Step p"
      by (auto simp: emitted_ok_def)
    from p(2) q(2) have "l \<in> set (Creates (Step q))" by simp
    with q(1) have "l \<in> set (concat (map (Creates \<circ> Step) (sortedNodes st)))" by auto
    with ok show "l \<in> set (satisfied st)"
      by (simp add: emitted_ok_def)
  qed
  ultimately have "changed ?st'"
    using nu foldl_emits [of n nodes ?st0] by (simp add: pass_unfold)
  with stuck show False by simp
qed

lemma sortLoop_correct:
  assumes "graph_wired roots"
  shows "sort_inv roots nodes st \<Longrightarrow>
     \<exists>sorted. sortLoop nodes st = Inr sorted \<and> linearized [] sorted
        \<and> distinct (map Step sorted) \<and> set sorted = reachable roots"
proof (induction nodes st rule: sortLoop.induct)
  case (1 nodes st)
  show ?case
  proof (cases "nodes = []")
    case True
    with "1.prems" have inv: "sort_inv roots [] st" by simp
    from True have "sortLoop nodes st = Inr (sortedNodes st)"
      by (subst sortLoop.simps) simp
    moreover from inv have "linearized [] (sortedNodes st)" "distinct (map Step (sortedNodes st))"
      by (simp_all add: sort_inv_def emitted_ok_def)
    moreover from inv assms have "set (sortedNodes st) = reachable roots"
      by (rule sort_inv_done)
    ultimately show ?thesis by simp
  next
    case False
    let ?st' = "pass st nodes"
    from sort_inv_progress [OF "1.prems" assms]
    have go: "\<not> (\<not> changed ?st' \<and> waiting ?st' \<noteq> [])" by blast
    from "1.IH" [OF False refl go sort_inv_pass [OF "1.prems" assms]]
    obtain sorted where s: "sortLoop (waiting ?st') ?st' = Inr sorted"
      "linearized [] sorted" "distinct (map Step sorted)" "set sorted = reachable roots"
      by blast
    have "sortLoop nodes st = sortLoop (waiting ?st') ?st'"
      using False go by (subst sortLoop.simps [of nodes st]) (auto simp: Let_def)
    with s show ?thesis by simp
  qed
qed

subsection \<open>Facts about the passes and the examples\<close>

lemmas ex_defs = nodeSrc_def nodeA_def nodeB_def nodeJoin_def mkStep_def nodeP_def nodeQ_def stepP_def stepQ_def

lemma diamond_sorted:
  "topologicalSort [nodeSrc] = Inr [nodeSrc, nodeA, nodeB, nodeJoin]"
  by (simp add: topologicalSort_def sortLoop.simps pass_def visit_def HasAllLinks_def Let_def ex_defs)

lemma diamond_wired: "graph_wired [nodeSrc]"
  by (simp add: graph_wired_def reachable_def ex_defs)

lemma HasAllLinks_visit:
  "HasAllLinks req (satisfied st) \<Longrightarrow> HasAllLinks req (satisfied (visit st x))"
  by (auto simp: visit_def Let_def HasAllLinks_iff)

lemma visit_ready_seen:
  "HasAllLinks (Requires (Step n)) (satisfied st) \<Longrightarrow> Step n \<in> seen (visit st n)"
  by (auto simp: visit_def Let_def)

lemma foldl_ready_seen:
  "n \<in> set ns \<Longrightarrow> HasAllLinks (Requires (Step n)) (satisfied st)
     \<Longrightarrow> Step n \<in> seen (foldl visit st ns)"
proof (induction ns arbitrary: st)
  case Nil
  then show ?case by simp
next
  case (Cons x ns)
  show ?case
  proof (cases "n \<in> set ns")
    case True
    from Cons.IH [OF True HasAllLinks_visit [OF Cons.prems(2)]] show ?thesis by simp
  next
    case False
    with Cons.prems(1) have "x = n" by simp
    with visit_ready_seen [OF Cons.prems(2)] seen_foldl_visit [of "visit st n" ns]
    show ?thesis by auto
  qed
qed

lemma linearized_append:
  "linearized sat (ys @ zs) \<longleftrightarrow>
     linearized sat ys \<and> linearized (sat @ concat (map (Creates \<circ> Step) ys)) zs"
  by (induction ys arbitrary: sat) auto

lemma visit_emission:
  "\<exists>ys. sortedNodes (visit st n) = sortedNodes st @ ys
        \<and> subseq ys [n]
        \<and> distinct (map Step ys)
        \<and> (\<forall>y\<in>set ys. Step y \<notin> seen st)
        \<and> seen (visit st n) = seen st \<union> Step ` set ys
        \<and> satisfied (visit st n) = satisfied st @ concat (map (Creates \<circ> Step) ys)
        \<and> linearized (satisfied st) ys"
proof (cases "Step n \<notin> seen st \<and> HasAllLinks (Requires (Step n)) (satisfied st)")
  case True
  then have "sortedNodes (visit st n) = sortedNodes st @ [n]"
    and "seen (visit st n) = seen st \<union> Step ` set [n]"
    and "satisfied (visit st n) = satisfied st @ concat (map (Creates \<circ> Step) [n])"
    and "linearized (satisfied st) [n]"
    by (auto simp: visit_def Let_def)
  with True show ?thesis
    by (intro exI [of _ "[n]"]) simp
next
  case False
  then have "sortedNodes (visit st n) = sortedNodes st @ []"
    and "seen (visit st n) = seen st \<union> Step ` set []"
    and "satisfied (visit st n) = satisfied st @ concat (map (Creates \<circ> Step) [])"
    by (auto simp: visit_def Let_def)
  then show ?thesis
    by (intro exI [of _ "[]"]) simp
qed

lemma foldl_emission:
  "\<exists>ys. sortedNodes (foldl visit st ns) = sortedNodes st @ ys
        \<and> subseq ys ns
        \<and> distinct (map Step ys)
        \<and> (\<forall>y\<in>set ys. Step y \<notin> seen st)
        \<and> seen (foldl visit st ns) = seen st \<union> Step ` set ys
        \<and> satisfied (foldl visit st ns) = satisfied st @ concat (map (Creates \<circ> Step) ys)
        \<and> linearized (satisfied st) ys"
proof (induction ns arbitrary: st)
  case Nil
  show ?case by (intro exI [of _ "[]"]) simp
next
  case (Cons x ns)
  let ?st = "visit st x"
  from visit_emission [of st x] obtain ys where
    ys: "sortedNodes ?st = sortedNodes st @ ys" "subseq ys [x]" "distinct (map Step ys)"
      "\<forall>y\<in>set ys. Step y \<notin> seen st" "seen ?st = seen st \<union> Step ` set ys"
      "satisfied ?st = satisfied st @ concat (map (Creates \<circ> Step) ys)"
      "linearized (satisfied st) ys"
    by blast
  from Cons.IH [of ?st] obtain zs where
    zs: "sortedNodes (foldl visit ?st ns) = sortedNodes ?st @ zs" "subseq zs ns"
      "distinct (map Step zs)" "\<forall>y\<in>set zs. Step y \<notin> seen ?st"
      "seen (foldl visit ?st ns) = seen ?st \<union> Step ` set zs"
      "satisfied (foldl visit ?st ns) = satisfied ?st @ concat (map (Creates \<circ> Step) zs)"
      "linearized (satisfied ?st) zs"
    by blast
  have a: "sortedNodes (foldl visit st (x # ns)) = sortedNodes st @ (ys @ zs)"
    using ys(1) zs(1) by simp
  from ys(2) zs(2) have "subseq (ys @ zs) ([x] @ ns)"
    by (rule list_emb_append_mono)
  then have b: "subseq (ys @ zs) (x # ns)" by simp
  from zs(4) have "\<forall>z\<in>set zs. Step z \<notin> seen st \<union> Step ` set ys"
    unfolding ys(5) .
  then have nz: "\<forall>z\<in>set zs. Step z \<notin> Step ` set ys" by simp
  have disj: "set (map Step ys) \<inter> set (map Step zs) = {}"
  proof (rule equals0I)
    fix s assume "s \<in> set (map Step ys) \<inter> set (map Step zs)"
    then obtain y z where y: "y \<in> set ys" "s = Step y" and z: "z \<in> set zs" "s = Step z"
      by auto
    from y(1) have "Step y \<in> Step ` set ys" by (rule imageI)
    with y(2) z(2) have "Step z \<in> Step ` set ys" by simp
    with nz z(1) show False by blast
  qed
  with ys(3) zs(3) have c: "distinct (map Step (ys @ zs))" by simp
  from ys(4) zs(4) ys(5) have d: "\<forall>y\<in>set (ys @ zs). Step y \<notin> seen st" by auto
  from ys(5) zs(5) have e: "seen (foldl visit st (x # ns)) = seen st \<union> Step ` set (ys @ zs)"
    by auto
  from ys(6) zs(6)
  have f: "satisfied (foldl visit st (x # ns))
             = satisfied st @ concat (map (Creates \<circ> Step) (ys @ zs))"
    by simp
  from ys(7) zs(7) ys(6) have g: "linearized (satisfied st) (ys @ zs)"
    by (simp add: linearized_append)
  from a b c d e f g show ?case by blast
qed

text \<open>
  The hypothesis on the wiring is needed. A node queues its children before its own
  readiness is tested, but a queued child is visited only in the next pass: when the
  only root waits for a link of its child, the first pass emits nothing and the sort
  fails, although every required link has a creator in the graph.
\<close>

lemma topologicalSort_unwired_fails:
  "topologicalSort [nodeM] = Inl (errorString ''steps are missing dependencies'')
   \<and> \<not> graph_wired [nodeM]"
  by (simp add: topologicalSort_def sortLoop.simps pass_def visit_def HasAllLinks_def Let_def
      graph_wired_def reachable_def nodeM_def nodeK_def mkStep_def)

subsection \<open>Facts about Run and initializeNamespace\<close>

lemma dry_True: "dry (exampleOptions\<lparr>dry := True\<rparr>)"
  by simp

lemma initializeNamespace_live:
  "initializeNamespace traceEnv (exampleOptions\<lparr>namespace := ''ns''\<rparr>) []
     = Some (Ok (),
             exampleOptions\<lparr>namespace := ''ns'',
                jobSpec := SetOwner (jobSpec exampleOptions)
                  \<lparr>APIVersion = ''image.openshift.io/v1'', Kind = ''ImageStream'',
                   owner_Name = ''pipeline'', UID = ''uid-1'', Controller = Some True\<rparr>\<rparr>,
             [''log: Creating namespace ns'', ''ProjectRequests.Create ns'',
              ''log: Namespace will be deleted after 10m0s of idle time'',
              ''ServiceAccounts.Create'', ''RoleBindings.Create'', ''Pods.Create'',
              ''ImageStreams.Create''])"
  by (simp add: initializeNamespace_def namespaceLoop.simps createNamespaceCleanupPod_def
        traceEnv_def exampleOptions_def)

lemma runPostSteps_all_succeed:
  "\<forall>s\<in>set steps. \<forall>w'. fst (step_Run env s d w') = None \<Longrightarrow>
     fst (runPostSteps env d steps w) = Ok ()"
proof (induction steps arbitrary: w)
  case Nil
  then show ?case by simp
next
  case (Cons s steps)
  obtain e w1 where r: "step_Run env s d w = (e, w1)" by (cases "step_Run env s d w")
  with Cons.prems have "e = None" by (metis fst_conv list.set_intros(1))
  with r Cons show ?case by simp
qed

lemma executeGraph_junit_independent:
  assumes "steps_Run env nodes (dry opt) w = ((suites, err), w1)"
    and "writeJUnit env opt suites ''operator'' w1 = (junit, w2)"
    and "\<forall>p. junit \<noteq> Panic p"
  shows "\<exists>w3. executeGraph env opt nodes postSteps w =
           (case err of Some e \<Rightarrow> (Failed e, w3)
            | None \<Rightarrow> runPostSteps env (dry opt) postSteps w3)"
  using assms by (cases junit) (auto simp: executeGraph_def Let_def split: option.splits)

lemma initializeNamespace_keeps:
  "initializeNamespace env opt w = Some (r, opt', w') \<Longrightarrow>
     inputHash_opt opt' = inputHash_opt opt \<and> namespace opt' = namespace opt \<and> dry opt' = dry opt"
  by (auto simp: initializeNamespace_def Let_def
      split: if_splits option.splits prod.splits)

lemma Run_options:
  assumes "steps_FromConfig env opt = Inr (buildSteps, postSteps)"
    and "resolveInputs (json_Marshal env) opt buildSteps = Ok opt1"
    and "Run env opt w = Some (r, opt', w')"
  shows "inputHash_opt opt' = inputHash_opt opt1 \<and> namespace opt' = namespace opt1"
proof -
  from assms(1,2) have run: "Run env opt w =
        (case BuildPartialGraph env buildSteps (targets opt1) of
           Inl err \<Rightarrow> Some (Failed err, opt1, w)
         | Inr nodes \<Rightarrow>
        (case printExecutionOrder nodes of
           (lines, Some err) \<Rightarrow> Some (Failed err, opt1, foldl (\<lambda>w l. log_Printf env l w) w lines)
         | (lines, None) \<Rightarrow>
        (case initializeNamespace env opt1 (foldl (\<lambda>w l. log_Printf env l w) w lines) of
           None \<Rightarrow> None
         | Some (Failed err, opt2, w2) \<Rightarrow> Some (Failed err, opt2, w2)
         | Some (Panic p, opt2, w2) \<Rightarrow> Some (Panic p, opt2, w2)
         | Some (Ok u, opt2, w2) \<Rightarrow>
             (case executeGraph env opt2 nodes postSteps w2 of
                (r, w3) \<Rightarrow> Some (r, opt2, w3)))))"
    by (simp add: Run_def)
  show ?thesis
  proof (cases "BuildPartialGraph env buildSteps (targets opt1)")
    case (Inl err)
    with run assms(3) show ?thesis by simp
  next
    case (Inr nodes)
    obtain lines perr where p: "printExecutionOrder nodes = (lines, perr)"
      by (cases "printExecutionOrder nodes")
    show ?thesis
    proof (cases perr)
      case (Some err)
      with run assms(3) Inr p show ?thesis by simp
    next
      case None
      let ?w1 = "foldl (\<lambda>w l. log_Printf env l w) w lines"
      from run assms(3) Inr p None obtain r2 opt2 w2
        where i: "initializeNamespace env opt1 ?w1 = Some (r2, opt2, w2)" and "opt' = opt2"
        by (auto split: option.splits result.splits prod.splits)
      with initializeNamespace_keeps [OF i] show ?thesis by simp
    qed
  qed
qed

lemma inputHash_example_all: "inputHash [''p1'', ''p2'', ''q'', ''{}''] = ''fdj2tjid''"
  by code_simp

lemma inputHash_example_pruned: "inputHash [''p1'', ''p2'', ''{}''] = ''48wnmbi1''"
  by code_simp

lemma topologicalSort_nodeP: "topologicalSort [nodeP] = Inr [nodeP]"
  by (simp add: topologicalSort_def sortLoop.simps pass_def visit_def HasAllLinks_def Let_def
      nodeP_def stepP_def mkStep_def)

lemma prunedSteps_example: "prunedSteps [stepP, stepQ] [''p''] = [stepP]"
  by (simp add: prunedSteps_def requires_from_def stepP_def stepQ_def mkStep_def)

lemma resolveInputs_example:
  "resolveInputs Inr exampleOptions [stepP, stepQ]
     = Ok (exampleOptions\<lparr>inputHash_opt := ''fdj2tjid'', namespace := ''ci-op-fdj2tjid'',
             jobSpec := SetNamespace (jobSpec exampleOptions) ''ci-op-fdj2tjid''\<rparr>)"
proof -
  have "resolvedInputs Inr exampleOptions [stepP, stepQ] = Ok [''p1'', ''p2'', ''q'', ''{}'']"
    by (simp add: resolvedInputs_def exampleOptions_def stepP_def stepQ_def mkStep_def)
  from resolveInputs_Ok [OF this] show ?thesis
    by (simp add: inputHash_example_all exampleOptions_def)
qed

lemma Run_example:
  "Run traceEnv exampleOptions []
     = Some (Ok (),
         exampleOptions\<lparr>inputHash_opt := ''fdj2tjid'', namespace := ''ci-op-fdj2tjid'',
           jobSpec := \<lparr>Job = ''dev'',
              Refs = \<lparr>Org = ''org'', Repo = ''repo'', BaseRef = ''master'', BaseSHA = ''abc'',
                      Pulls = []\<rparr>,
              js_namespace = ''ci-op-fdj2tjid'',
              js_owner = Some \<lparr>APIVersion = ''image.openshift.io/v1'', Kind = ''ImageStream'',
                               owner_Name = ''pipeline'', UID = ''uid-1'',
                               Controller = Some True\<rparr>\<rparr>\<rparr>,
         [''log: Running p'', ''log: Creating namespace ci-op-fdj2tjid'',
          ''ProjectRequests.Create ci-op-fdj2tjid'',
          ''log: Namespace will be deleted after 10m0s of idle time'',
          ''ServiceAccounts.Create'', ''RoleBindings.Create'', ''Pods.Create'',
          ''ImageStreams.Create'', ''steps.Run'',
          ''WriteFile /artifacts/junit_operator.xml''])"
proof -
  have fc: "steps_FromConfig traceEnv exampleOptions = Inr ([stepP, stepQ], [])"
    and jm: "json_Marshal traceEnv = Inr"
    by (simp_all add: traceEnv_def)
  have tg: "targets exampleOptions = [''p'']"
    by (simp add: exampleOptions_def)
  have bp: "BuildPartialGraph traceEnv [stepP, stepQ] [''p''] = Inr [nodeP]"
    by (simp add: traceEnv_def prunedSteps_example nodeP_def)
  have pe: "printExecutionOrder [nodeP] = ([''Running p''], None)"
    unfolding printExecutionOrder_def topologicalSort_nodeP
    by (simp add: nodeNames_def nodeP_def stepP_def mkStep_def)
  show ?thesis
    unfolding Run_def fc jm
    by (simp add: resolveInputs_example tg bp pe)
       (simp add: exampleOptions_def initializeNamespace_def namespaceLoop.simps
          createNamespaceCleanupPod_def executeGraph_def writeJUnit_def traceEnv_def
          SetNamespace_def SetOwner_def)
qed

section \<open>The claims\<close>

text \<open>
  C1 (as amended): input resolution runs on the full list of build steps that
  \<^verbatim>\<open>steps.FromConfig\<close> returns, before the graph is pruned to the targets. For every
  configuration, every target list and every graph builder, when every \<^verbatim>\<open>Inputs\<close> call
  and the serialisation succeed, the workspace identifier that \<^verbatim>\<open>Run\<close> leaves in the
  options is \<^verbatim>\<open>inputHash\<close> of the inputs of all build steps in order followed by the
  serialised configuration. (The comment in \<^verbatim>\<open>Run\<close> gives the reason: two jobs with
  different targets must not get different artifact caches.)
\<close>

theorem Run_resolves_inputs_on_all_build_steps:
  assumes "steps_FromConfig env opt = Inr (buildSteps, postSteps)"
    and "map (\<lambda>s. Inputs s (dry opt)) buildSteps = map Inr defs"
    and "json_Marshal env (configSpec opt) = Inr c"
    and "Run env opt w = Some (r, opt', w')"
  shows "inputHash_opt opt' = inputHash (concat defs @ [c])"
proof -
  from assms(2,3) have "resolvedInputs (json_Marshal env) opt buildSteps = Ok (concat defs @ [c])"
    by (simp add: resolvedInputs_def collectInputs_all)
  from resolveInputs_Ok [OF this] obtain opt1
    where o: "resolveInputs (json_Marshal env) opt buildSteps = Ok opt1"
      and h: "inputHash_opt opt1 = inputHash (concat defs @ [c])"
    by simp
  from Run_options [OF assms(1) o assms(4)] h show ?thesis by simp
qed

theorem Run_resolves_inputs_on_all_build_steps_witness:
  "steps_FromConfig traceEnv exampleOptions = Inr ([stepP, stepQ], [])
   \<and> map (\<lambda>s. Inputs s (dry exampleOptions)) [stepP, stepQ] = map Inr [[''p1'', ''p2''], [''q'']]
   \<and> json_Marshal traceEnv (configSpec exampleOptions) = Inr ''{}''
   \<and> (\<exists>r opt' w'. Run traceEnv exampleOptions [] = Some (r, opt', w')
         \<and> inputHash_opt opt' = inputHash [''p1'', ''p2'', ''q'', ''{}''])"
proof -
  have h1: "steps_FromConfig traceEnv exampleOptions = Inr ([stepP, stepQ], [])"
    by (simp add: traceEnv_def)
  have h2: "map (\<lambda>s. Inputs s (dry exampleOptions)) [stepP, stepQ]
              = map Inr [[''p1'', ''p2''], [''q'']]"
    by (simp add: stepP_def stepQ_def mkStep_def)
  have h3: "json_Marshal traceEnv (configSpec exampleOptions) = Inr ''{}''"
    by (simp add: traceEnv_def exampleOptions_def)
  from Run_resolves_inputs_on_all_build_steps [OF h1 h2 h3 Run_example] h1 h2 h3 Run_example
  show ?thesis by simp
qed

text \<open>
  The claim as stated fails: with the steps \<open>p\<close> and \<open>q\<close>, independent of each other,
  and the target \<open>p\<close>, the pruned graph has \<open>p\<close> only, and the inputs of \<open>p\<close> with the
  configuration give the identifier \<open>48wnmbi1\<close>; \<^verbatim>\<open>Run\<close> hashes the inputs of \<open>q\<close> as
  well and chooses \<open>ci-op-fdj2tjid\<close>.
\<close>

theorem pruned_inputs_counterexample:
  "targets exampleOptions = [''p'']
   \<and> steps_FromConfig traceEnv exampleOptions = Inr ([stepP, stepQ], [])
   \<and> prunedSteps [stepP, stepQ] [''p''] = [stepP]
   \<and> resolvedInputs (json_Marshal traceEnv) exampleOptions [stepP] = Ok [''p1'', ''p2'', ''{}'']
   \<and> inputHash [''p1'', ''p2'', ''{}''] = ''48wnmbi1''
   \<and> resolvedInputs (json_Marshal traceEnv) exampleOptions [stepP, stepQ]
        = Ok [''p1'', ''p2'', ''q'', ''{}'']
   \<and> inputHash [''p1'', ''p2'', ''q'', ''{}''] = ''fdj2tjid''
   \<and> Run traceEnv exampleOptions []
     = Some (Ok (),
         exampleOptions\<lparr>inputHash_opt := ''fdj2tjid'', namespace := ''ci-op-fdj2tjid'',
           jobSpec := \<lparr>Job = ''dev'',
              Refs = \<lparr>Org = ''org'', Repo = ''repo'', BaseRef = ''master'', BaseSHA = ''abc'',
                      Pulls = []\<rparr>,
              js_namespace = ''ci-op-fdj2tjid'',
              js_owner = Some \<lparr>APIVersion = ''image.openshift.io/v1'', Kind = ''ImageStream'',
                               owner_Name = ''pipeline'', UID = ''uid-1'',
                               Controller = Some True\<rparr>\<rparr>\<rparr>,
         [''log: Running p'', ''log: Creating namespace ci-op-fdj2tjid'',
          ''ProjectRequests.Create ci-op-fdj2tjid'',
          ''log: Namespace will be deleted after 10m0s of idle time'',
          ''ServiceAccounts.Create'', ''RoleBindings.Create'', ''Pods.Create'',
          ''ImageStreams.Create'', ''steps.Run'',
          ''WriteFile /artifacts/junit_operator.xml''])"
proof -
  have "targets exampleOptions = [''p'']"
    by (simp add: exampleOptions_def)
  moreover have "steps_FromConfig traceEnv exampleOptions = Inr ([stepP, stepQ], [])"
    by (simp add: traceEnv_def)
  moreover have "resolvedInputs (json_Marshal traceEnv) exampleOptions [stepP] = Ok [''p1'', ''p2'', ''{}'']"
    by (simp add: resolvedInputs_def traceEnv_def exampleOptions_def stepP_def mkStep_def)
  moreover have "resolvedInputs (json_Marshal traceEnv) exampleOptions [stepP, stepQ]
        = Ok [''p1'', ''p2'', ''q'', ''{}'']"
    by (simp add: resolvedInputs_def traceEnv_def exampleOptions_def stepP_def stepQ_def mkStep_def)
  moreover note prunedSteps_example inputHash_example_pruned inputHash_example_all Run_example
  ultimately show ?thesis by (intro conjI)
qed

text \<open>
  C2: for every input definition, the workspace identifier returned by \<^verbatim>\<open>inputHash\<close> is
  exactly 8 characters long; each character is drawn from the alphabet of
  \<^verbatim>\<open>oneWayNameEncoding\<close>, which has 32 distinct symbols, all lowercase letters or digits,
  none of them \<open>o\<close>, \<open>a\<close>, \<open>e\<close> or \<open>u\<close>; and the identifier is the unpadded encoding
  of the first 5 of the 32 bytes of the SHA-256 hash of the inputs.
\<close>

theorem inputHash_encoding:
  "length (inputHash inputs) = 8
   \<and> set (inputHash inputs) \<subseteq> set (encodeMap oneWayNameEncoding)
   \<and> length (encodeMap oneWayNameEncoding) = 32
   \<and> distinct (encodeMap oneWayNameEncoding)
   \<and> set (encodeMap oneWayNameEncoding) \<subseteq> set ''abcdefghijklmnopqrstuvwxyz0123456789''
   \<and> set (encodeMap oneWayNameEncoding) \<inter> set ''oaeu'' = {}
   \<and> padChar oneWayNameEncoding = None
   \<and> length (sha256 (bytes (concat inputs))) = 32
   \<and> inputHash inputs
       = EncodeToString oneWayNameEncoding (take 5 (sha256 (bytes (concat inputs))))"
proof -
  have "length (inputHash inputs) = 8"
    by (simp add: inputHash_quantum length_quantum)
  moreover note inputHash_in_alphabet [of inputs] alphabet_facts length_sha256 [of "bytes (concat inputs)"]
    inputHash_concat [of inputs]
  ultimately show ?thesis by blast
qed

theorem inputHash_encoding_witness:
  "length (inputHash [''abc'']) = 8
   \<and> set (inputHash [''abc'']) \<subseteq> set (encodeMap oneWayNameEncoding)"
  using inputHash_encoding [of "[''abc'']"] by blast

text \<open>
  C3: for every list of steps whose \<^verbatim>\<open>Inputs\<close> calls succeed, \<^verbatim>\<open>resolveInputs\<close>
  builds the final input definition by concatenating each step's inputs in order and then
  appending exactly one more element, the serialised configuration, as the last element;
  the workspace identifier it stores is \<^verbatim>\<open>inputHash\<close> of that list.
\<close>

theorem resolveInputs_definition:
  assumes "map (\<lambda>s. Inputs s (dry opt)) steps = map Inr defs"
    and "m (configSpec opt) = Inr c"
  shows "resolvedInputs m opt steps = Ok (concat defs @ [c])
         \<and> (\<exists>opt'. resolveInputs m opt steps = Ok opt'
                \<and> inputHash_opt opt' = inputHash (concat defs @ [c]))"
proof -
  from assms have r: "resolvedInputs m opt steps = Ok (concat defs @ [c])"
    by (simp add: resolvedInputs_def collectInputs_all)
  from resolveInputs_Ok [OF r] r show ?thesis by simp
qed

theorem resolveInputs_definition_witness:
  "map (\<lambda>s. Inputs s (dry exampleOptions)) [stepP, stepQ] = map Inr [[''p1'', ''p2''], [''q'']]
   \<and> resolvedInputs Inr exampleOptions [stepP, stepQ] = Ok [''p1'', ''p2'', ''q'', ''{}'']
   \<and> (\<exists>opt'. resolveInputs Inr exampleOptions [stepP, stepQ] = Ok opt'
          \<and> inputHash_opt opt' = inputHash [''p1'', ''p2'', ''q'', ''{}''])"
proof -
  have h1: "map (\<lambda>s. Inputs s (dry exampleOptions)) [stepP, stepQ]
              = map Inr [[''p1'', ''p2''], [''q'']]"
    by (simp add: stepP_def stepQ_def mkStep_def)
  have h2: "Inr (configSpec exampleOptions) = (Inr ''{}'' :: error + string)"
    by (simp add: exampleOptions_def)
  from resolveInputs_definition [of exampleOptions "[stepP, stepQ]" _ Inr, OF h1 h2] h1
  show ?thesis by simp
qed

text \<open>
  C4: the workspace identifier is deterministic. Two runs of \<^verbatim>\<open>resolveInputs\<close> whose
  steps yield equal input definitions and whose configurations serialise to equal bytes
  store the same identifier, whatever else differs between the two option values and
  the two step lists.
\<close>

theorem workspace_deterministic:
  assumes "collectInputs (dry opt1) steps1 [] = Inr definition"
    and "collectInputs (dry opt2) steps2 [] = Inr definition"
    and "m1 (configSpec opt1) = Inr config"
    and "m2 (configSpec opt2) = Inr config"
  shows "\<exists>opt1' opt2'. resolveInputs m1 opt1 steps1 = Ok opt1'
            \<and> resolveInputs m2 opt2 steps2 = Ok opt2'
            \<and> inputHash_opt opt1' = inputHash (definition @ [config])
            \<and> inputHash_opt opt2' = inputHash_opt opt1'"
proof -
  from assms have "resolvedInputs m1 opt1 steps1 = Ok (definition @ [config])"
    and "resolvedInputs m2 opt2 steps2 = Ok (definition @ [config])"
    by (simp_all add: resolvedInputs_def)
  then show ?thesis
    by (simp add: resolveInputs_Ok)
qed

theorem workspace_deterministic_witness:
  "collectInputs (dry exampleOptions) [stepP, stepQ] [] = Inr [''p1'', ''p2'', ''q'']
   \<and> collectInputs (dry otherOptions) [stepPQ] [] = Inr [''p1'', ''p2'', ''q'']
   \<and> exampleOptions \<noteq> otherOptions
   \<and> (\<exists>opt1' opt2'. resolveInputs Inr exampleOptions [stepP, stepQ] = Ok opt1'
          \<and> resolveInputs Inr otherOptions [stepPQ] = Ok opt2'
          \<and> inputHash_opt opt1' = inputHash [''p1'', ''p2'', ''q'', ''{}'']
          \<and> inputHash_opt opt2' = inputHash_opt opt1')"
proof -
  have h1: "collectInputs (dry exampleOptions) [stepP, stepQ] [] = Inr [''p1'', ''p2'', ''q'']"
    by (simp add: stepP_def stepQ_def mkStep_def)
  have h2: "collectInputs (dry otherOptions) [stepPQ] [] = Inr [''p1'', ''p2'', ''q'']"
    by (simp add: stepPQ_def mkStep_def)
  have h3: "Inr (configSpec exampleOptions) = (Inr ''{}'' :: error + string)"
    by (simp add: exampleOptions_def)
  have h4: "Inr (configSpec otherOptions) = (Inr ''{}'' :: error + string)"
    by (simp add: otherOptions_def exampleOptions_def)
  have h5: "exampleOptions \<noteq> otherOptions"
    by (simp add: otherOptions_def exampleOptions_def)
  from workspace_deterministic [of exampleOptions "[stepP, stepQ]" _ otherOptions "[stepPQ]" Inr _ Inr,
      OF h1 h2 h3 h4] h1 h2 h5
  show ?thesis by simp
qed

text \<open>
  C5: on every graph of step nodes as the builder wires it (acyclic, one node per step,
  every required link created by a parent of the node in the graph), \<^verbatim>\<open>topologicalSort\<close>
  succeeds, and the sequence it returns is a valid linearization (each node's requires are
  created by strictly earlier nodes), contains each step exactly once, and has exactly the
  nodes reachable from the roots as members.
\<close>

theorem topologicalSort_linearizes:
  assumes "graph_wired roots"
  shows "\<exists>sorted. topologicalSort roots = Inr sorted
           \<and> linearized [] sorted
           \<and> distinct (map Step sorted)
           \<and> set sorted = reachable roots"
proof -
  have "sort_inv roots roots \<lparr>sortedNodes = [], satisfied = [], seen = {}, waiting = [], changed = False\<rparr>"
    using root_reachable by (auto simp: sort_inv_def emitted_ok_def)
  from sortLoop_correct [OF assms this] show ?thesis
    by (simp add: topologicalSort_def)
qed

theorem topologicalSort_linearizes_witness:
  "graph_wired [nodeSrc]
   \<and> (\<exists>sorted. topologicalSort [nodeSrc] = Inr sorted
           \<and> linearized [] sorted
           \<and> distinct (map Step sorted)
           \<and> set sorted = reachable [nodeSrc])"
  using topologicalSort_linearizes [OF diamond_wired] diamond_wired by simp

text \<open>
  C6 (as amended): within each pass the nodes emitted are appended to the sorted nodes in
  the order in which they occur in the list of the pass (the roots as given for the first
  pass, the waiting list afterwards). Their steps are distinct and were not seen before
  the pass; each of them requires only links that were satisfied when the pass started
  or are created by nodes emitted earlier in the pass; the seen set and the satisfied
  set grow by exactly their steps and their creates. Every listed node that is unseen and
  whose requires are all in the satisfied set when the pass starts is emitted during it:
  a node of its step is among the appended nodes. No ordering by step name is applied:
  the logged order is the order of emission.
\<close>

theorem pass_emits_in_list_order:
  "\<exists>ys. sortedNodes (pass st nodes) = sortedNodes st @ ys
        \<and> subseq ys nodes
        \<and> distinct (map Step ys)
        \<and> (\<forall>y\<in>set ys. Step y \<notin> seen st)
        \<and> linearized (satisfied st) ys
        \<and> seen (pass st nodes) = seen st \<union> Step ` set ys
        \<and> satisfied (pass st nodes) = satisfied st @ concat (map (Creates \<circ> Step) ys)
        \<and> (\<forall>n\<in>set nodes. Step n \<notin> seen st \<and> HasAllLinks (Requires (Step n)) (satisfied st)
              \<longrightarrow> Step n \<in> Step ` set ys)"
proof -
  let ?st0 = "st\<lparr>waiting := [], changed := False\<rparr>"
  from foldl_emission [of ?st0 nodes] obtain ys
    where ys: "sortedNodes (pass st nodes) = sortedNodes st @ ys" "subseq ys nodes"
      "distinct (map Step ys)" "\<forall>y\<in>set ys. Step y \<notin> seen st"
      "seen (pass st nodes) = seen st \<union> Step ` set ys"
      "satisfied (pass st nodes) = satisfied st @ concat (map (Creates \<circ> Step) ys)"
      "linearized (satisfied st) ys"
    by (auto simp: pass_unfold)
  have "Step n \<in> Step ` set ys"
    if "n \<in> set nodes" "Step n \<notin> seen st" "HasAllLinks (Requires (Step n)) (satisfied st)" for n
  proof -
    from foldl_ready_seen [of n nodes ?st0] that have "Step n \<in> seen (pass st nodes)"
      by (simp add: pass_unfold)
    with ys(5) that(2) show ?thesis by blast
  qed
  with ys show ?thesis by blast
qed

theorem pass_emits_in_list_order_witness:
  "nodeQ \<in> set [nodeQ, nodeP]
   \<and> Step nodeQ \<notin> seen \<lparr>sortedNodes = [], satisfied = [], seen = {}, waiting = [], changed = False\<rparr>
   \<and> HasAllLinks (Requires (Step nodeQ))
        (satisfied \<lparr>sortedNodes = [], satisfied = [], seen = {}, waiting = [], changed = False\<rparr>)
   \<and> (\<exists>ys. sortedNodes (pass \<lparr>sortedNodes = [], satisfied = [], seen = {}, waiting = [],
                                 changed = False\<rparr> [nodeQ, nodeP]) = ys
          \<and> subseq ys [nodeQ, nodeP]
          \<and> distinct (map Step ys)
          \<and> Step nodeQ \<in> Step ` set ys)"
proof -
  have h: "HasAllLinks (Requires (Step nodeQ))
        (satisfied \<lparr>sortedNodes = [], satisfied = [], seen = {}, waiting = [], changed = False\<rparr>)"
    by (simp add: HasAllLinks_def nodeQ_def stepQ_def mkStep_def)
  from pass_emits_in_list_order
    [of "\<lparr>sortedNodes = [], satisfied = [], seen = {}, waiting = [], changed = False\<rparr>"
        "[nodeQ, nodeP]"] h
  show ?thesis by auto
qed

text \<open>
  The claim as stated fails: two roots \<open>q\<close> and \<open>p\<close> without requirements are both
  emitted in the first pass, in the order given, and the line logged is \<open>Running q, p\<close>.
\<close>

theorem name_order_counterexample:
  "topologicalSort [nodeQ, nodeP] = Inr [nodeQ, nodeP]
   \<and> nodeNames [nodeQ, nodeP] = [''q'', ''p'']
   \<and> \<not> sorted (nodeNames [nodeQ, nodeP])
   \<and> printExecutionOrder [nodeQ, nodeP] = ([''Running q, p''], None)"
proof -
  have t: "topologicalSort [nodeQ, nodeP] = Inr [nodeQ, nodeP]"
    by (simp add: topologicalSort_def sortLoop.simps pass_def visit_def HasAllLinks_def Let_def ex_defs)
  have n: "nodeNames [nodeQ, nodeP] = [''q'', ''p'']"
    by (simp add: nodeNames_def ex_defs)
  have s: "\<not> sorted [''q'', ''p'']"
    by simp
  from t n s show ?thesis
    by (simp add: printExecutionOrder_def)
qed

text \<open>
  C7: after \<^verbatim>\<open>resolveInputs\<close>, the namespace is derived from the caller's value as
  follows. If no namespace was supplied it is \<open>ci-op-\<close> followed by the input hash. If
  the caller's value does not contain \<open>{id}\<close> it is used verbatim. In general, every
  occurrence of \<open>{id}\<close> is replaced by the input hash: a value that is pieces free of
  \<open>{id}\<close> joined by \<open>{id}\<close> becomes the same pieces joined by the input hash. The job
  spec receives the same namespace.
\<close>

theorem namespace_resolution:
  assumes "resolveInputs m opt steps = Ok opt'"
  shows "(\<exists>inputs. resolvedInputs m opt steps = Ok inputs \<and> inputHash_opt opt' = inputHash inputs)
    \<and> js_namespace (jobSpec opt') = namespace opt'
    \<and> (namespace opt = [] \<longrightarrow> namespace opt' = ''ci-op-'' @ inputHash_opt opt')
    \<and> (namespace opt \<noteq> [] \<and> \<not> sublist ''{id}'' (namespace opt)
          \<longrightarrow> namespace opt' = namespace opt)
    \<and> (\<forall>pieces. namespace opt \<noteq> [] \<and> namespace opt = strings_Join pieces ''{id}''
            \<and> (\<forall>p\<in>set pieces. \<not> sublist ''{id}'' p)
          \<longrightarrow> namespace opt' = strings_Join pieces (inputHash_opt opt'))"
proof -
  from resolveInputs_Ok_iff [OF assms] obtain inputs
    where r: "resolvedInputs m opt steps = Ok inputs" by blast
  let ?h = "inputHash inputs"
  let ?ns = "strings_Replace (if namespace opt = [] then ''ci-op-{id}'' else namespace opt) ''{id}'' ?h"
  from resolveInputs_Ok [OF r] assms
  have opt': "opt' = opt\<lparr>inputHash_opt := ?h, namespace := ?ns,
                          jobSpec := SetNamespace (jobSpec opt) ?ns\<rparr>"
    by simp
  have h: "inputHash_opt opt' = ?h" and ns: "namespace opt' = ?ns"
    and js: "js_namespace (jobSpec opt') = ?ns"
    by (simp_all add: opt' SetNamespace_def)
  have c1: "namespace opt = [] \<longrightarrow> namespace opt' = ''ci-op-'' @ inputHash_opt opt'"
    unfolding h ns using Replace_default [of ?h] by simp
  have c2: "namespace opt \<noteq> [] \<and> \<not> sublist ''{id}'' (namespace opt)
          \<longrightarrow> namespace opt' = namespace opt"
    unfolding ns using Replace_no_occurrence [of "''{id}''" "namespace opt" ?h] by simp
  have c3: "\<forall>pieces. namespace opt \<noteq> [] \<and> namespace opt = strings_Join pieces ''{id}''
            \<and> (\<forall>p\<in>set pieces. \<not> sublist ''{id}'' p)
          \<longrightarrow> namespace opt' = strings_Join pieces (inputHash_opt opt')"
    unfolding h ns using Replace_Join [of _ ?h] by auto
  from r h have c0: "\<exists>inputs. resolvedInputs m opt steps = Ok inputs
      \<and> inputHash_opt opt' = inputHash inputs" by blast
  from js ns have c4: "js_namespace (jobSpec opt') = namespace opt'" by simp
  from c0 c4 c1 c2 c3 show ?thesis by (intro conjI)
qed

theorem namespace_resolution_witness:
  "(\<exists>opt'. resolveInputs Inr exampleOptions [stepP] = Ok opt'
       \<and> namespace opt' = ''ci-op-'' @ inputHash [''p1'', ''p2'', ''{}''])
   \<and> (\<exists>opt'. resolveInputs Inr (exampleOptions\<lparr>namespace := ''my-namespace''\<rparr>) [stepP] = Ok opt'
       \<and> namespace opt' = ''my-namespace'')
   \<and> (\<exists>opt'. resolveInputs Inr (exampleOptions\<lparr>namespace := ''a-{id}-b-{id}''\<rparr>) [stepP] = Ok opt'
       \<and> namespace opt' = ''a-'' @ inputHash [''p1'', ''p2'', ''{}'']
                            @ ''-b-'' @ inputHash [''p1'', ''p2'', ''{}''])"
proof -
  have r: "resolvedInputs Inr (exampleOptions\<lparr>namespace := ns\<rparr>) [stepP] = Ok [''p1'', ''p2'', ''{}'']"
    for ns
    by (simp add: resolvedInputs_def exampleOptions_def stepP_def mkStep_def)
  have ex: "\<exists>opt'. resolveInputs Inr (exampleOptions\<lparr>namespace := ns\<rparr>) [stepP] = Ok opt'" for ns
    by (simp add: resolveInputs_Ok [OF r])
  have e0: "exampleOptions\<lparr>namespace := []\<rparr> = exampleOptions"
    by (simp add: exampleOptions_def)
  from ex [of "[]"] obtain o1 where o1: "resolveInputs Inr exampleOptions [stepP] = Ok o1"
    by (auto simp: e0)
  from ex obtain o2
    where o2: "resolveInputs Inr (exampleOptions\<lparr>namespace := ''my-namespace''\<rparr>) [stepP] = Ok o2"
    by blast
  from ex obtain o3
    where o3: "resolveInputs Inr (exampleOptions\<lparr>namespace := ''a-{id}-b-{id}''\<rparr>) [stepP] = Ok o3"
    by blast
  from namespace_resolution [OF o1] r [of "[]"]
  have n1: "namespace o1 = ''ci-op-'' @ inputHash [''p1'', ''p2'', ''{}'']"
    by (auto simp: e0 exampleOptions_def)
  from namespace_resolution [OF o2]
  have n2: "namespace o2 = ''my-namespace''"
    by (simp add: sublist_Cons_right)
  from namespace_resolution [OF o3] r [of "''a-{id}-b-{id}''"]
  have h3: "inputHash_opt o3 = inputHash [''p1'', ''p2'', ''{}'']"
    and "\<forall>pieces. namespace (exampleOptions\<lparr>namespace := ''a-{id}-b-{id}''\<rparr>) \<noteq> []
            \<and> namespace (exampleOptions\<lparr>namespace := ''a-{id}-b-{id}''\<rparr>) = strings_Join pieces ''{id}''
            \<and> (\<forall>p\<in>set pieces. \<not> sublist ''{id}'' p)
          \<longrightarrow> namespace o3 = strings_Join pieces (inputHash_opt o3)"
    by auto
  from this(2) [rule_format, of "[''a-'', ''-b-'', []]"] h3
  have n3: "namespace o3 = ''a-'' @ inputHash [''p1'', ''p2'', ''{}'']
                            @ ''-b-'' @ inputHash [''p1'', ''p2'', ''{}'']"
    by (simp add: sublist_Cons_right)
  from o1 o2 o3 n1 n2 n3 show ?thesis by simp
qed

text \<open>
  C8: an error while writing the JUnit document never fails the run. When \<^verbatim>\<open>writeJUnit\<close>
  returns an error, the error is logged as a warning and the result is the one that the
  error of \<^verbatim>\<open>steps.Run\<close> and the post steps determine: the error of \<^verbatim>\<open>steps.Run\<close> if
  there is one, else the result of the post steps; in particular the run succeeds when
  \<^verbatim>\<open>steps.Run\<close> and every post step succeed.
\<close>

theorem junit_error_does_not_fail_run:
  assumes "steps_Run env nodes (dry opt) w = ((suites, err), w1)"
    and "writeJUnit env opt suites ''operator'' w1 = (Failed jerr, w2)"
  shows "executeGraph env opt nodes postSteps w =
           (case err of
              Some e \<Rightarrow> (Failed e, log_Printf env (''warning: Unable to write JUnit result: '' @ Error jerr) w2)
            | None \<Rightarrow> runPostSteps env (dry opt) postSteps
                       (log_Printf env (''warning: Unable to write JUnit result: '' @ Error jerr) w2))
         \<and> (err = None \<and> (\<forall>s\<in>set postSteps. \<forall>w'. fst (step_Run env s (dry opt) w') = None)
               \<longrightarrow> fst (executeGraph env opt nodes postSteps w) = Ok ())"
proof -
  let ?w3 = "log_Printf env (''warning: Unable to write JUnit result: '' @ Error jerr) w2"
  from assms have e: "executeGraph env opt nodes postSteps w =
           (case err of Some e \<Rightarrow> (Failed e, ?w3)
            | None \<Rightarrow> runPostSteps env (dry opt) postSteps ?w3)"
    by (simp add: executeGraph_def Let_def split: option.splits)
  moreover have "fst (executeGraph env opt nodes postSteps w) = Ok ()"
    if "err = None" "\<forall>s\<in>set postSteps. \<forall>w'. fst (step_Run env s (dry opt) w') = None"
    using e that runPostSteps_all_succeed [of postSteps env "dry opt" ?w3] by simp
  ultimately show ?thesis by blast
qed

theorem junit_error_does_not_fail_run_witness:
  "steps_Run readOnlyEnv [nodeP] (dry exampleOptions) [] = ((Some \<lparr>Suites = [\<lparr>suite_Name = []\<rparr>]\<rparr>, None), [''steps.Run''])
   \<and> writeJUnit readOnlyEnv exampleOptions (Some \<lparr>Suites = [\<lparr>suite_Name = []\<rparr>]\<rparr>) ''operator'' [''steps.Run'']
        = (Failed (errorString ''read-only file system''),
           [''steps.Run'', ''WriteFile /artifacts/junit_operator.xml''])
   \<and> executeGraph readOnlyEnv exampleOptions [nodeP] [stepPQ] []
        = (Ok (), [''steps.Run'', ''WriteFile /artifacts/junit_operator.xml'',
                   ''log: warning: Unable to write JUnit result: read-only file system'',
                   ''Run pq''])"
proof -
  have h1: "steps_Run readOnlyEnv [nodeP] (dry exampleOptions) []
              = ((Some \<lparr>Suites = [\<lparr>suite_Name = []\<rparr>]\<rparr>, None), [''steps.Run''])"
    by (simp add: readOnlyEnv_def traceEnv_def)
  have h2: "writeJUnit readOnlyEnv exampleOptions (Some \<lparr>Suites = [\<lparr>suite_Name = []\<rparr>]\<rparr>) ''operator'' [''steps.Run'']
        = (Failed (errorString ''read-only file system''),
           [''steps.Run'', ''WriteFile /artifacts/junit_operator.xml''])"
    by (simp add: writeJUnit_def readOnlyEnv_def traceEnv_def exampleOptions_def)
  from junit_error_does_not_fail_run [OF h1 h2, of "[stepPQ]"] h1 h2
  show ?thesis
    by (simp add: readOnlyEnv_def traceEnv_def exampleOptions_def stepPQ_def mkStep_def)
qed

text \<open>
  C9: \<^verbatim>\<open>inputHash\<close> depends only on the concatenation of the elements of the input
  definition, not on where one element ends and the next begins: two input definitions
  with equal concatenations get the same workspace identifier.
\<close>

theorem inputHash_boundaries:
  "concat xs = concat ys \<Longrightarrow> inputHash xs = inputHash ys"
  by (simp add: inputHash_concat)

theorem inputHash_boundaries_witness:
  "[''ab'', ''c''] \<noteq> [''a'', ''bc''] \<and> concat [''ab'', ''c''] = concat [''a'', ''bc'']
   \<and> inputHash [''ab'', ''c''] = inputHash [''a'', ''bc'']"
proof -
  have h: "concat [''ab'', ''c''] = concat [''a'', ''bc'']" by simp
  from inputHash_boundaries [OF h] h show ?thesis by simp
qed

text \<open>
  C10: in dry mode \<^verbatim>\<open>initializeNamespace\<close> returns success at once: with any cluster
  and any collaborators, the result is success, and the options and the world (cluster,
  log, clock) are unchanged, so no namespace, cleanup pod, image stream or secret is
  created.
\<close>

theorem initializeNamespace_dry:
  "dry opt \<Longrightarrow> initializeNamespace env opt w = Some (Ok (), opt, w)"
  by (simp add: initializeNamespace_def)

theorem initializeNamespace_dry_witness:
  "dry (exampleOptions\<lparr>dry := True\<rparr>)
   \<and> initializeNamespace traceEnv (exampleOptions\<lparr>dry := True\<rparr>) []
       = Some (Ok (), exampleOptions\<lparr>dry := True\<rparr>, [])"
  using initializeNamespace_dry [OF dry_True, of traceEnv "[]"] by simp

end
